theory Spec2Isabelle
  imports Complex_Main
begin

section \<open>Gradient-boosted decision trees: the split evaluator\<close>

text \<open>
  The development embeds \<^verbatim>\<open>gbdt_numba.py\<close> in exact real arithmetic. Arrays are
  lists, a raise is the \<open>Inl\<close> branch of a sum. A division by zero is written out as
  a branch of its own: the functions of the split search are compiled by numba, whose
  default error model raises ZeroDivisionError there (plain numpy floats would give
  inf or nan, which exact arithmetic has no value for either).
\<close>

datatype error = ZeroDivisionError | IndexError | TypeError | AttributeError | ValueError

definition divide_checked :: "real \<Rightarrow> real \<Rightarrow> error + real" where
  "divide_checked a b = (if b = 0 then Inl ZeroDivisionError else Inr (a / b))"

definition leaf_score :: "real list \<Rightarrow> real list \<Rightarrow> real \<Rightarrow> error + real" where
  "leaf_score g h reg_lambda = divide_checked (- sum_list g) (sum_list h + reg_lambda)"

definition leaf_loss :: "real list \<Rightarrow> real list \<Rightarrow> real \<Rightarrow> error + real" where
  "leaf_loss g h reg_lambda =
     divide_checked (- (1/2) * (sum_list g)\<^sup>2) (sum_list h + reg_lambda)"

text \<open>
  The accumulation loop of \<^verbatim>\<open>calculate_gain\<close>: \<open>feature[i]\<close>, \<open>g[i]\<close> and
  \<open>h[i]\<close> are read in lockstep for \<open>i\<close> in \<open>range(len(feature))\<close>; a \<open>g\<close> or
  \<open>h\<close> shorter than \<open>feature\<close> is an IndexError, a longer one is read only as far as
  \<open>feature\<close> goes. The accumulator is \<open>(left_g, left_h, right_g, right_h)\<close>.
\<close>

fun gain_sums ::
  "real list \<Rightarrow> real list \<Rightarrow> real list \<Rightarrow> real \<Rightarrow> real \<times> real \<times> real \<times> real
     \<Rightarrow> error + real \<times> real \<times> real \<times> real" where
  "gain_sums [] g h threshold acc = Inr acc"
| "gain_sums (x # feature) (gi # g) (hi # h) threshold (left_g, left_h, right_g, right_h) =
     (if x < threshold
      then gain_sums feature g h threshold (left_g + gi, left_h + hi, right_g, right_h)
      else gain_sums feature g h threshold (left_g, left_h, right_g + gi, right_h + hi))"
| "gain_sums (x # feature) g h threshold acc = Inl IndexError"

definition calculate_gain ::
  "real \<Rightarrow> real list \<Rightarrow> real list \<Rightarrow> real list \<Rightarrow> real \<Rightarrow> real \<Rightarrow> error + real" where
  "calculate_gain original_loss feature g h threshold reg_lambda =
     (case gain_sums feature g h threshold (0, 0, 0, 0) of
        Inl e \<Rightarrow> Inl e
      | Inr (left_g, left_h, right_g, right_h) \<Rightarrow>
          (case divide_checked (- (1/2) * left_g\<^sup>2) (left_h + reg_lambda) of
             Inl e \<Rightarrow> Inl e
           | Inr left_loss \<Rightarrow>
               (case divide_checked (- (1/2) * right_g\<^sup>2) (right_h + reg_lambda) of
                  Inl e \<Rightarrow> Inl e
                | Inr right_loss \<Rightarrow> Inr (original_loss - left_loss - right_loss))))"


section \<open>Threshold search and best-split search\<close>

text \<open>\<^verbatim>\<open>np.unique\<close>: the sorted distinct values of an array.\<close>

definition unique :: "real list \<Rightarrow> real list" where
  "unique xs = sort (remdups xs)"

text \<open>
  The candidate loop of \<^verbatim>\<open>find_threshold\<close>, over the indices \<open>range(1, len(unq))\<close>,
  with the state \<open>(threshold, best_gain)\<close>; \<open>None\<close> is Python's \<open>None\<close>.
\<close>

fun threshold_loop ::
  "real \<Rightarrow> real list \<Rightarrow> real list \<Rightarrow> real list \<Rightarrow> real \<Rightarrow> real list \<Rightarrow> nat list
     \<Rightarrow> real option \<times> real \<Rightarrow> error + real option \<times> real" where
  "threshold_loop loss train g h reg_lambda unq [] st = Inr st"
| "threshold_loop loss train g h reg_lambda unq (i # rest) (threshold, best_gain) =
     (let this_threshold = (unq ! (i - 1) + unq ! i) / 2 in
      case calculate_gain loss train g h this_threshold reg_lambda of
        Inl e \<Rightarrow> Inl e
      | Inr this_gain \<Rightarrow>
          if this_gain > best_gain
          then threshold_loop loss train g h reg_lambda unq rest (Some this_threshold, this_gain)
          else threshold_loop loss train g h reg_lambda unq rest (threshold, best_gain))"

definition find_threshold ::
  "real list \<Rightarrow> real list \<Rightarrow> real list \<Rightarrow> real \<Rightarrow> error + real option \<times> real" where
  "find_threshold g h train reg_lambda =
     (case leaf_loss g h reg_lambda of
        Inl e \<Rightarrow> Inl e
      | Inr loss \<Rightarrow>
          (let unq = unique train
           in threshold_loop loss train g h reg_lambda unq [1..<length unq] (None, 0)))"

text \<open>
  A sample matrix is a two-dimensional array: its rows, and its number of columns, which
  numpy knows also when there is no row. Every row of a well-formed matrix has
  \<open>nfeat\<close> entries. \<open>column train i\<close> is \<open>train.T[i]\<close>, or \<open>train[:,i]\<close>.
\<close>

record matrix =
  nfeat :: nat
  rows :: "real list list"

definition wf_matrix :: "matrix \<Rightarrow> bool" where
  "wf_matrix train = (\<forall>row \<in> set (rows train). length row = nfeat train)"

definition column :: "matrix \<Rightarrow> nat \<Rightarrow> real list" where
  "column train i = map (\<lambda>row. row ! i) (rows train)"

text \<open>
  The feature loop of \<^verbatim>\<open>find_best_split\<close>, over \<open>range(len(train.T))\<close>, with the
  state \<open>(feature, threshold, best_gain)\<close>.
\<close>

fun split_loop ::
  "matrix \<Rightarrow> real list \<Rightarrow> real list \<Rightarrow> real \<Rightarrow> nat list
     \<Rightarrow> nat \<times> real option \<times> real \<Rightarrow> error + nat \<times> real option \<times> real" where
  "split_loop train g h reg_lambda [] st = Inr st"
| "split_loop train g h reg_lambda (i # rest) (feature, threshold, best_gain) =
     (case find_threshold g h (column train i) reg_lambda of
        Inl e \<Rightarrow> Inl e
      | Inr (this_threshold, this_gain) \<Rightarrow>
          if this_gain > best_gain
          then split_loop train g h reg_lambda rest (i, this_threshold, this_gain)
          else split_loop train g h reg_lambda rest (feature, threshold, best_gain))"

definition find_best_split ::
  "matrix \<Rightarrow> real list \<Rightarrow> real list \<Rightarrow> real \<Rightarrow> error + nat \<times> real option \<times> real" where
  "find_best_split train g h reg_lambda =
     split_loop train g h reg_lambda [0..<nfeat train] (0, None, 0)"


section \<open>The tree\<close>

text \<open>
  A \<^verbatim>\<open>TreeNode\<close> is built in two shapes only: \<open>Leaf score\<close>, or
  \<open>Internal split_feature split_threshold left_child right_child\<close>. A \<^verbatim>\<open>Tree\<close>
  holds the four hyperparameters and, once fitted, its root in \<open>estimator\<close>.
\<close>

datatype TreeNode =
    Leaf real
  | Internal nat real TreeNode TreeNode

record Tree =
  max_depth :: int
  min_sample_split :: int
  reg_lambda :: real
  gamma :: real
  estimator :: "TreeNode option"

text \<open>
  \<^verbatim>\<open>xs[index]\<close> with a boolean array: numpy raises IndexError unless the mask is as
  long as the array. \<open>select_samples\<close> is the triple \<open>train[index], g[index], h[index]\<close>
  of one recursive call of \<^verbatim>\<open>construct_tree\<close>.
\<close>

definition boolean_index :: "'a list \<Rightarrow> bool list \<Rightarrow> error + 'a list" where
  "boolean_index xs index =
     (if length index = length xs then Inr (map fst (filter snd (zip xs index)))
      else Inl IndexError)"

definition select_samples ::
  "matrix \<Rightarrow> real list \<Rightarrow> real list \<Rightarrow> bool list \<Rightarrow> error + matrix \<times> real list \<times> real list" where
  "select_samples train g h index =
     (case boolean_index (rows train) index of
        Inl e \<Rightarrow> Inl e
      | Inr rs \<Rightarrow>
          (case boolean_index g index of
             Inl e \<Rightarrow> Inl e
           | Inr gs \<Rightarrow>
               (case boolean_index h index of
                  Inl e \<Rightarrow> Inl e
                | Inr hs \<Rightarrow> Inr (train\<lparr>rows := rs\<rparr>, gs, hs))))"

subsection \<open>A stored threshold separates the samples\<close>

text \<open>
  The recursion of \<^verbatim>\<open>construct_tree\<close> ends because a threshold that the search
  returns lies strictly between two values of the chosen column, so both parts of the
  split are smaller than the whole.
\<close>

lemma unique_props: "sorted_wrt (<) (unique xs) \<and> set (unique xs) = set xs"
  by (simp add: unique_def strict_sorted_iff)

lemma unique_consecutive:
  assumes "i \<in> set [1..<length (unique xs)]"
  shows "unique xs ! (i - 1) \<in> set xs \<and> unique xs ! i \<in> set xs \<and> unique xs ! (i - 1) < unique xs ! i"
proof -
  let ?u = "unique xs"
  from assms have i: "1 \<le> i" "i < length ?u" by auto
  have "?u ! (i - 1) < ?u ! i"
    using unique_props[of xs] i by (simp add: sorted_wrt_nth_less)
  moreover have "?u ! (i - 1) \<in> set ?u" "?u ! i \<in> set ?u" using i by auto
  ultimately show ?thesis using unique_props[of xs] by simp
qed

lemma threshold_loop_some:
  "threshold_loop loss train g h lam unq idx (t0, b0) = Inr (Some t, b) \<Longrightarrow>
   t0 = Some t \<or> (\<exists>i \<in> set idx. t = (unq ! (i - 1) + unq ! i) / 2)"
proof (induction idx arbitrary: t0 b0)
  case Nil
  then show ?case by simp
next
  case (Cons i idx)
  then show ?case
    by (fastforce simp: Let_def split: sum.splits if_splits)
qed

lemma find_threshold_some_between:
  assumes "find_threshold g h train lam = Inr (Some t, b)"
  shows "\<exists>lo \<in> set train. \<exists>hi \<in> set train. lo < t \<and> t < hi"
proof -
  from assms obtain loss where
    "threshold_loop loss train g h lam (unique train) [1..<length (unique train)] (None, 0) = Inr (Some t, b)"
    by (auto simp: find_threshold_def Let_def split: sum.splits)
  from threshold_loop_some[OF this] obtain i where
    i: "i \<in> set [1..<length (unique train)]" and t: "t = (unique train ! (i - 1) + unique train ! i) / 2"
    by auto
  from unique_consecutive[OF i] t show ?thesis
    by (intro bexI[of _ "unique train ! (i - 1)"] bexI[of _ "unique train ! i"]) (auto simp: field_simps)
qed

lemma split_loop_some:
  "split_loop train g h lam idx (f0, t0, b0) = Inr (f, Some t, b) \<Longrightarrow>
   (f = f0 \<and> t0 = Some t) \<or> (f \<in> set idx \<and> (\<exists>b'. find_threshold g h (column train f) lam = Inr (Some t, b')))"
proof (induction idx arbitrary: f0 t0 b0)
  case Nil
  then show ?case by simp
next
  case (Cons i idx)
  then show ?case
    by (fastforce split: sum.splits if_splits prod.splits)
qed

lemma find_best_split_some:
  assumes "find_best_split train g h lam = Inr (f, Some t, b)"
  shows "f < nfeat train \<and> (\<exists>lo \<in> set (column train f). \<exists>hi \<in> set (column train f). lo < t \<and> t < hi)"
  using split_loop_some[OF assms[unfolded find_best_split_def]] find_threshold_some_between
  by fastforce

lemma boolean_index_length_less:
  assumes "boolean_index xs (map P ys) = Inr zs" and "\<exists>y \<in> set ys. \<not> P y"
  shows "length zs < length xs"
proof -
  from assms(1) have len: "length ys = length xs" and zs: "zs = map fst (filter snd (zip xs (map P ys)))"
    by (auto simp: boolean_index_def split: if_splits)
  from assms(2) obtain k where k: "k < length ys" "\<not> P (ys ! k)" by (auto simp: in_set_conv_nth)
  have "(xs ! k, False) \<in> set (zip xs (map P ys))"
    using k len by (auto simp: in_set_zip intro!: exI[of _ k])
  then have "length (filter snd (zip xs (map P ys))) < length (zip xs (map P ys))"
    by (rule length_filter_less) simp
  then show ?thesis using zs len by simp
qed


lemma select_samples_parts:
  assumes "select_samples train g h index = Inr (train', g', h')"
  shows "boolean_index (rows train) index = Inr (rows train')"
    and "boolean_index g index = Inr g'"
    and "boolean_index h index = Inr h'"
    and "nfeat train' = nfeat train"
  using assms by (auto simp: select_samples_def split: sum.splits)

lemma split_left_smaller:
  assumes "find_best_split train g h lam = Inr (f, Some t, b)"
    and "select_samples train g h (map (\<lambda>x. x < t) (column train f)) = Inr (train', g', h')"
  shows "length (rows train') < length (rows train)"
proof -
  from find_best_split_some[OF assms(1)] obtain hi where "hi \<in> set (column train f)" "t < hi"
    by blast
  then have "\<exists>y \<in> set (column train f). \<not> y < t"
    by (intro bexI[of _ hi]) auto
  with select_samples_parts(1)[OF assms(2)] show ?thesis
    by (rule boolean_index_length_less)
qed

lemma split_right_smaller:
  assumes "find_best_split train g h lam = Inr (f, Some t, b)"
    and "select_samples train g h (map Not (map (\<lambda>x. x < t) (column train f))) = Inr (train', g', h')"
  shows "length (rows train') < length (rows train)"
proof -
  from find_best_split_some[OF assms(1)] have "\<exists>y \<in> set (column train f). \<not> \<not> y < t"
    by blast
  moreover from select_samples_parts(1)[OF assms(2)]
  have "boolean_index (rows train) (map (\<lambda>x. \<not> x < t) (column train f)) = Inr (rows train')"
    by (simp add: comp_def)
  ultimately show ?thesis
    by (rule boolean_index_length_less[rotated])
qed

text \<open>
  \<^verbatim>\<open>construct_tree\<close>. \<open>train[:,feature]\<close> is an IndexError when the matrix has no
  column, and comparing the column with \<open>None\<close> is a TypeError; both can only be
  reached with a negative \<open>gamma\<close>.
\<close>

function construct_tree ::
  "Tree \<Rightarrow> matrix \<Rightarrow> real list \<Rightarrow> real list \<Rightarrow> int \<Rightarrow> error + TreeNode" where
  "construct_tree self train g h depth =
     (if depth = 0 \<or> int (length (rows train)) < min_sample_split self
      then (case leaf_score g h (reg_lambda self) of
              Inl e \<Rightarrow> Inl e
            | Inr s \<Rightarrow> Inr (Leaf s))
      else
        (case find_best_split train g h (reg_lambda self) of
           Inl e \<Rightarrow> Inl e
         | Inr (feature, threshold, gain) \<Rightarrow>
             if gain \<le> gamma self
             then (case leaf_score g h (reg_lambda self) of
                     Inl e \<Rightarrow> Inl e
                   | Inr s \<Rightarrow> Inr (Leaf s))
             else if \<not> feature < nfeat train then Inl IndexError
             else
               (case threshold of
                  None \<Rightarrow> Inl TypeError
                | Some t \<Rightarrow>
                    (let index = map (\<lambda>x. x < t) (column train feature) in
                     case select_samples train g h index of
                       Inl e \<Rightarrow> Inl e
                     | Inr (train_l, g_l, h_l) \<Rightarrow>
                         (case construct_tree self train_l g_l h_l (depth - 1) of
                            Inl e \<Rightarrow> Inl e
                          | Inr left \<Rightarrow>
                              (case select_samples train g h (map Not index) of
                                 Inl e \<Rightarrow> Inl e
                               | Inr (train_r, g_r, h_r) \<Rightarrow>
                                   (case construct_tree self train_r g_r h_r (depth - 1) of
                                      Inl e \<Rightarrow> Inl e
                                    | Inr right \<Rightarrow>
                                        Inr (Internal feature t left right))))))))"
  by pat_completeness auto
termination
proof (relation "measure (\<lambda>(self, train, g, h, depth). length (rows train))", goal_cases)
  case 1
  show ?case by simp
next
  case 2
  then show ?case by (auto dest: split_left_smaller)
next
  case 3
  then show ?case by (auto dest: split_right_smaller)
qed


text \<open>\<^verbatim>\<open>Tree.fit\<close>, \<^verbatim>\<open>Tree.predict_single\<close> and \<^verbatim>\<open>Tree.predict\<close>. A row shorter than a
  split feature asks for is an IndexError; a tree that was never fitted has no
  \<open>estimator\<close> attribute.\<close>

definition Tree_fit :: "Tree \<Rightarrow> matrix \<Rightarrow> real list \<Rightarrow> real list \<Rightarrow> error + Tree" where
  "Tree_fit self train g h =
     (case construct_tree self train g h (max_depth self) of
        Inl e \<Rightarrow> Inl e
      | Inr node \<Rightarrow> Inr (self\<lparr>estimator := Some node\<rparr>))"

fun predict_single :: "TreeNode \<Rightarrow> real list \<Rightarrow> error + real" where
  "predict_single (Leaf s) test = Inr s"
| "predict_single (Internal feature threshold left right) test =
     (if feature < length test
      then (if test ! feature < threshold
            then predict_single left test
            else predict_single right test)
      else Inl IndexError)"

fun predict_rows :: "TreeNode \<Rightarrow> real list list \<Rightarrow> error + real list" where
  "predict_rows node [] = Inr []"
| "predict_rows node (row # rest) =
     (case predict_single node row of
        Inl e \<Rightarrow> Inl e
      | Inr s \<Rightarrow>
          (case predict_rows node rest of
             Inl e \<Rightarrow> Inl e
           | Inr ss \<Rightarrow> Inr (s # ss)))"

definition Tree_predict :: "Tree \<Rightarrow> matrix \<Rightarrow> error + real list" where
  "Tree_predict self test =
     (case estimator self of
        None \<Rightarrow> Inl AttributeError
      | Some node \<Rightarrow> predict_rows node (rows test))"

section \<open>Losses and the boosting loop\<close>

text \<open>
  An elementwise operation of numpy on two one-dimensional arrays: equal lengths pair
  up, an array of length one is broadcast, any other pair of lengths is a ValueError.
  A loss is an object with the three methods \<open>link\<close>, \<open>g\<close> and \<open>h\<close>, here the
  fields \<open>loss_link\<close>, \<open>loss_g\<close> and \<open>loss_h\<close>; the last two take \<open>true\<close> and
  \<open>score\<close> in this order. The class \<^verbatim>\<open>log\<close> is \<open>log_loss\<close>.
\<close>

definition broadcast2 ::
  "(real \<Rightarrow> real \<Rightarrow> real) \<Rightarrow> real list \<Rightarrow> real list \<Rightarrow> error + real list" where
  "broadcast2 f a b =
     (if length a = length b then Inr (map2 f a b)
      else if length a = 1 then Inr (map (f (hd a)) b)
      else if length b = 1 then Inr (map (\<lambda>x. f x (hd b)) a)
      else Inl ValueError)"

record loss =
  loss_link :: "real list \<Rightarrow> error + real list"
  loss_g :: "real list \<Rightarrow> real list \<Rightarrow> error + real list"
  loss_h :: "real list \<Rightarrow> real list \<Rightarrow> error + real list"

definition mse :: loss where
  "mse = \<lparr> loss_link = (\<lambda>score. Inr score),
           loss_g = (\<lambda>true score. broadcast2 (-) score true),
           loss_h = (\<lambda>true score. Inr (map (\<lambda>_. 1) score)) \<rparr>"

definition sigmoid :: "real \<Rightarrow> real" where
  "sigmoid x = 1 / (1 + exp (- x))"

definition log_loss :: loss where
  "log_loss = \<lparr> loss_link = (\<lambda>score. Inr (map sigmoid score)),
                loss_g = (\<lambda>true score. broadcast2 (-) (map sigmoid score) true),
                loss_h = (\<lambda>true score. Inr (map (\<lambda>pred. pred * (1 - pred)) (map sigmoid score))) \<rparr>"

text \<open>
  The \<open>loss\<close> argument of \<^verbatim>\<open>GBDT\<close> is a string or a loss object. The attributes
  \<open>estimators\<close> and \<open>score_start\<close> exist only after \<^verbatim>\<open>fit\<close>. \<open>GBDT_init\<close> holds
  the defaults of the constructor.
\<close>

datatype loss_arg = LossName string | LossObject loss

record GBDT =
  loss :: loss_arg
  max_depth :: int
  min_sample_split :: int
  reg_lambda :: real
  gamma :: real
  learning_rate :: real
  n_estimators :: int
  estimators :: "Tree list option"
  score_start :: "real option"

definition GBDT_init :: GBDT where
  "GBDT_init = \<lparr> loss = LossName ''mse'', max_depth = 3, min_sample_split = 10,
       reg_lambda = 1, gamma = 0, learning_rate = 1/10, n_estimators = 100,
       estimators = None, score_start = None \<rparr>"

text \<open>
  \<^verbatim>\<open>target.mean()\<close>; the mean of no value is a division by zero (numpy answers nan).
  \<open>new_Tree\<close> is the \<^verbatim>\<open>Tree(...)\<close> call of \<^verbatim>\<open>GBDT.fit\<close>. The loop state of
  \<^verbatim>\<open>fit\<close> is \<open>(self.estimators, score)\<close>; a loss that is still a string has no
  method \<open>g\<close>. The score and the predictions of a tree on \<open>train\<close> both have one entry
  per row, so \<open>+=\<close> pairs them up.
\<close>

definition mean :: "real list \<Rightarrow> error + real" where
  "mean target = divide_checked (sum_list target) (real (length target))"

definition new_Tree :: "GBDT \<Rightarrow> Tree" where
  "new_Tree self =
     \<lparr> Tree.max_depth = GBDT.max_depth self,
       Tree.min_sample_split = GBDT.min_sample_split self,
       Tree.reg_lambda = GBDT.reg_lambda self,
       Tree.gamma = GBDT.gamma self,
       estimator = None \<rparr>"

fun fit_loop ::
  "GBDT \<Rightarrow> matrix \<Rightarrow> real list \<Rightarrow> nat list \<Rightarrow> Tree list \<times> real list
     \<Rightarrow> error + Tree list \<times> real list" where
  "fit_loop self train target [] st = Inr st"
| "fit_loop self train target (i # rounds) (ests, score) =
     (case loss self of
        LossName name \<Rightarrow> Inl AttributeError
      | LossObject obj \<Rightarrow>
          (case loss_g obj target score of
             Inl e \<Rightarrow> Inl e
           | Inr g \<Rightarrow>
               (case loss_h obj target score of
                  Inl e \<Rightarrow> Inl e
                | Inr h \<Rightarrow>
                    (case Tree_fit (new_Tree self) train g h of
                       Inl e \<Rightarrow> Inl e
                     | Inr est \<Rightarrow>
                         (case Tree_predict est train of
                            Inl e \<Rightarrow> Inl e
                          | Inr p \<Rightarrow>
                              fit_loop self train target rounds
                                (ests @ [est],
                                 map2 (\<lambda>s x. s + learning_rate self * x) score p))))))"

definition fit :: "GBDT \<Rightarrow> matrix \<Rightarrow> real list \<Rightarrow> error + GBDT" where
  "fit self0 train target =
     (let self = (case loss self0 of
                   LossName name \<Rightarrow>
                     if name = ''mse'' then self0\<lparr>loss := LossObject mse\<rparr> else self0
                 | LossObject obj \<Rightarrow> self0)
      in case mean target of
           Inl e \<Rightarrow> Inl e
         | Inr m \<Rightarrow>
             (case fit_loop self train target [0..<nat (n_estimators self)]
                     ([], replicate (length (rows train)) m) of
                Inl e \<Rightarrow> Inl e
              | Inr (ests, score) \<Rightarrow>
                  Inr (self\<lparr>estimators := Some ests, score_start := Some m\<rparr>)))"

fun predict_loop :: "GBDT \<Rightarrow> matrix \<Rightarrow> nat list \<Rightarrow> real list \<Rightarrow> error + real list" where
  "predict_loop self test [] score = Inr score"
| "predict_loop self test (i # rounds) score =
     (case estimators self of
        None \<Rightarrow> Inl AttributeError
      | Some ests \<Rightarrow>
          if i < length ests
          then (case Tree_predict (ests ! i) test of
                  Inl e \<Rightarrow> Inl e
                | Inr p \<Rightarrow>
                    predict_loop self test rounds
                      (map2 (\<lambda>s x. s + learning_rate self * x) score p))
          else Inl IndexError)"

definition predict :: "GBDT \<Rightarrow> matrix \<Rightarrow> error + real list" where
  "predict self test =
     (case score_start self of
        None \<Rightarrow> Inl AttributeError
      | Some m \<Rightarrow>
          (case predict_loop self test [0..<nat (n_estimators self)]
                  (replicate (length (rows test)) m) of
             Inl e \<Rightarrow> Inl e
           | Inr score \<Rightarrow>
               (case loss self of
                  LossName name \<Rightarrow> Inl AttributeError
                | LossObject obj \<Rightarrow> loss_link obj score)))"


section \<open>Notions for stating the properties\<close>

text \<open>
  The sums that \<^verbatim>\<open>calculate_gain\<close> accumulates for the two groups of a split: the
  entries of \<open>v\<close> whose feature value lies below the threshold, and the others.
\<close>

definition left_sum :: "real list \<Rightarrow> real list \<Rightarrow> real \<Rightarrow> real" where
  "left_sum feature v t = sum_list (map snd (filter (\<lambda>p. fst p < t) (zip feature v)))"

definition right_sum :: "real list \<Rightarrow> real list \<Rightarrow> real \<Rightarrow> real" where
  "right_sum feature v t = sum_list (map snd (filter (\<lambda>p. \<not> fst p < t) (zip feature v)))"

text \<open>
  The \<open>i\<close>-th candidate threshold of a column is the midpoint of the values at
  \<open>i - 1\<close> and \<open>i\<close> of its sorted distinct values. \<open>running_best\<close> is the pattern
  both search loops share: run through pairs of a key and a gain, and replace the state
  whenever a gain is strictly greater than the best one so far.
\<close>

definition candidate :: "real list \<Rightarrow> nat \<Rightarrow> real" where
  "candidate train i = (unique train ! (i - 1) + unique train ! i) / 2"

fun running_best :: "('s \<times> real) list \<Rightarrow> 's \<times> real \<Rightarrow> 's \<times> real" where
  "running_best [] st = st"
| "running_best ((k, x) # rest) (s, b) =
     (if x > b then running_best rest (k, x) else running_best rest (s, b))"

text \<open>
  The height of a tree is the number of edges of its longest path from the root to a
  leaf. \<open>nondegenerate node samples\<close> follows the samples down the tree as
  \<^verbatim>\<open>construct_tree\<close> partitions them: at every internal node the threshold is a
  candidate of the split column of the samples that reach the node, and both parts of
  the samples are non-empty.
\<close>

fun height :: "TreeNode \<Rightarrow> nat" where
  "height (Leaf s) = 0"
| "height (Internal f t l r) = Suc (max (height l) (height r))"

fun nondegenerate :: "TreeNode \<Rightarrow> real list list \<Rightarrow> bool" where
  "nondegenerate (Leaf s) samples = True"
| "nondegenerate (Internal f t l r) samples =
     (let col = map (\<lambda>row. row ! f) samples;
          left = filter (\<lambda>row. row ! f < t) samples;
          right = filter (\<lambda>row. \<not> row ! f < t) samples
      in t \<in> set (map (candidate col) [1..<length (unique col)]) \<and>
         left \<noteq> [] \<and> right \<noteq> [] \<and> nondegenerate l left \<and> nondegenerate r right)"

text \<open>
  The score of an ensemble on a sample matrix, in the words of the specification: the
  start score plus the sum, over the trees in order, of the learning rate times the
  predictions of the tree, one entry per row. \<open>collect\<close> gathers the predictions of
  the trees and stops at the first one that fails.
\<close>

fun collect :: "(error + 'a) list \<Rightarrow> error + 'a list" where
  "collect [] = Inr []"
| "collect (r # rs) =
     (case r of
        Inl e \<Rightarrow> Inl e
      | Inr x \<Rightarrow> (case collect rs of Inl e \<Rightarrow> Inl e | Inr xs \<Rightarrow> Inr (x # xs)))"

definition ensemble_score :: "real \<Rightarrow> real \<Rightarrow> Tree list \<Rightarrow> matrix \<Rightarrow> error + real list" where
  "ensemble_score start rate trees X =
     (case collect (map (\<lambda>t. Tree_predict t X) trees) of
        Inl e \<Rightarrow> Inl e
      | Inr ps \<Rightarrow> Inr (map (\<lambda>j. start + (\<Sum>p\<leftarrow>ps. rate * p ! j)) [0..<length (rows X)]))"

text \<open>
  \<open>features_below n node\<close>: every split feature of the tree is an index below \<open>n\<close>,
  so the tree reads no row of \<open>n\<close> entries out of range.
\<close>

fun features_below :: "nat \<Rightarrow> TreeNode \<Rightarrow> bool" where
  "features_below n (Leaf s) = True"
| "features_below n (Internal f t l r) = (f < n \<and> features_below n l \<and> features_below n r)"

section \<open>Properties of the split evaluator\<close>

lemma gain_sums_zip:
  "length feature \<le> length g \<Longrightarrow> length feature \<le> length h \<Longrightarrow>
   gain_sums feature g h t (a, b, c, d) =
     Inr (a + left_sum feature g t, b + left_sum feature h t,
          c + right_sum feature g t, d + right_sum feature h t)"
proof (induction feature g h t "(a, b, c, d)" arbitrary: a b c d rule: gain_sums.induct)
  case (2 x feature gi g hi h threshold left_g left_h right_g right_h)
  then show ?case by (simp add: left_sum_def right_sum_def algebra_simps)
qed (simp_all add: left_sum_def right_sum_def)

lemma gain_sums_short:
  "length g < length feature \<or> length h < length feature \<Longrightarrow>
   gain_sums feature g h t acc = Inl IndexError"
  by (induction feature g h t acc rule: gain_sums.induct) auto

lemma left_right_sum:
  "length feature = length v \<Longrightarrow> left_sum feature v t + right_sum feature v t = sum_list v"
  unfolding left_sum_def right_sum_def
  by (induction feature v rule: list_induct2) auto

lemma calculate_gain_eq:
  assumes "length feature \<le> length g" "length feature \<le> length h"
    and "left_sum feature h t + lam \<noteq> 0" "right_sum feature h t + lam \<noteq> 0"
  shows "calculate_gain L feature g h t lam =
     Inr (L + (1/2) * (left_sum feature g t)\<^sup>2 / (left_sum feature h t + lam)
            + (1/2) * (right_sum feature g t)\<^sup>2 / (right_sum feature h t + lam))"
  using assms by (simp add: calculate_gain_def gain_sums_zip divide_checked_def)

lemma titu:
  fixes a b x y :: real
  assumes "0 < a" "0 < b"
  shows "(x + y)\<^sup>2 / (a + b) \<le> x\<^sup>2 / a + y\<^sup>2 / b"
proof -
  have "x\<^sup>2 / a + y\<^sup>2 / b - (x + y)\<^sup>2 / (a + b) = (x * b - y * a)\<^sup>2 / (a * b * (a + b))"
    using assms by (simp add: field_simps power2_eq_square)
  moreover have "0 \<le> (x * b - y * a)\<^sup>2 / (a * b * (a + b))"
    using assms by simp
  ultimately show ?thesis by linarith
qed

lemma split_gain_nonneg:
  fixes a b x y :: real
  assumes "0 < a" "0 < b"
  shows "0 \<le> - (1/2) * (x + y)\<^sup>2 / (a + b) + 1/2 * x\<^sup>2 / a + 1/2 * y\<^sup>2 / b"
proof -
  have "- (1/2) * (x + y)\<^sup>2 / (a + b) + 1/2 * x\<^sup>2 / a + 1/2 * y\<^sup>2 / b
          = (x\<^sup>2 / a + y\<^sup>2 / b - (x + y)\<^sup>2 / (a + b)) / 2"
    by (simp add: add_divide_distrib diff_divide_distrib mult.commute)
  then show ?thesis using titu[OF assms, of x y] by simp
qed

text \<open>
  Claim C10. On empty gradient and hessian vectors and a positive \<open>reg_lambda\<close>, both
  \<^verbatim>\<open>leaf_score\<close> and \<^verbatim>\<open>leaf_loss\<close> return 0: the sums are empty and the
  denominator is \<open>reg_lambda\<close>, which is not zero.
\<close>

theorem leaf_empty_total:
  "0 < lam \<Longrightarrow> leaf_score [] [] lam = Inr 0 \<and> leaf_loss [] [] lam = Inr 0"
  by (simp add: leaf_score_def leaf_loss_def divide_checked_def)

theorem leaf_empty_total_witness:
  "(0::real) < 1 \<and> leaf_score [] [] 1 = Inr 0 \<and> leaf_loss [] [] 1 = Inr 0"
  using leaf_empty_total [of 1] by simp

text \<open>
  Claim C1 as stated fails once \<open>reg_lambda\<close> is positive. With \<open>g = h = [1, 1]\<close>,
  the column \<open>[1, 2]\<close>, the threshold \<open>3/2\<close> and \<open>reg_lambda = 1\<close>, the unsplit
  loss is \<open>-2/3\<close>, each group's loss is \<open>-1/4\<close>, and the gain is \<open>-1/6\<close>.
\<close>

theorem gain_negative_counterexample:
  "[1, 1] \<noteq> ([]::real list) \<and> length [1, 1 :: real] = length [1, 1 :: real] \<and>
   length [1, 2 :: real] = length [1, 1 :: real] \<and> (0::real) \<le> 1 \<and>
   (1::real) \<in> set [1, 2] \<and> (2::real) \<in> set [1, 2] \<and> (1::real) < 3/2 \<and> (3/2::real) < 2 \<and>
   0 < left_sum [1, 2] [1, 1] (3/2) + 1 \<and> 0 < right_sum [1, 2] [1, 1] (3/2) + 1 \<and>
   leaf_loss [1, 1] [1, 1] 1 = Inr (- (2/3)) \<and>
   calculate_gain (- (2/3)) [1, 2] [1, 1] [1, 1] (3/2) 1 = Inr (- (1/6)) \<and>
   \<not> (0::real) \<le> - (1/6)"
  by (simp add: left_sum_def right_sum_def leaf_loss_def calculate_gain_def divide_checked_def)

text \<open>
  Claim C1, amended. With \<open>reg_lambda = 0\<close>, non-empty \<open>g\<close> and \<open>h\<close> of equal length,
  a column of the same length, a threshold strictly between two observed values of the
  column and a positive hessian sum in each group, \<^verbatim>\<open>leaf_loss\<close> and
  \<^verbatim>\<open>calculate_gain\<close> both return, and the gain is not negative.
\<close>

theorem calculate_gain_nonneg_unregularised:
  assumes "g \<noteq> []" and "length h = length g" and "length feature = length g"
    and "lo \<in> set feature" and "hi \<in> set feature" and "lo < t" and "t < hi"
    and "lam = 0"
    and "0 < left_sum feature h t + lam" and "0 < right_sum feature h t + lam"
  shows "\<exists>L gain. leaf_loss g h lam = Inr L \<and>
           calculate_gain L feature g h t lam = Inr gain \<and> 0 \<le> gain"
proof -
  let ?gl = "left_sum feature g t" and ?gr = "right_sum feature g t"
  let ?hl = "left_sum feature h t" and ?hr = "right_sum feature h t"
  have G: "sum_list g = ?gl + ?gr" and H: "sum_list h = ?hl + ?hr"
    using assms(2,3) by (simp_all add: left_right_sum)
  have pos: "0 < ?hl" "0 < ?hr" using assms(8-10) by simp_all
  then have Hpos: "sum_list h + lam \<noteq> 0" using H assms(8) by simp
  define L where "L = - (1/2) * (sum_list g)\<^sup>2 / (sum_list h + lam)"
  have L: "leaf_loss g h lam = Inr L"
    using Hpos by (simp add: leaf_loss_def divide_checked_def L_def)
  define gain where "gain = L + (1/2) * ?gl\<^sup>2 / (?hl + lam) + (1/2) * ?gr\<^sup>2 / (?hr + lam)"
  have cg: "calculate_gain L feature g h t lam = Inr gain"
    unfolding gain_def using assms(2,3,9,10) by (intro calculate_gain_eq) simp_all
  have "0 \<le> gain"
    unfolding gain_def L_def G H using split_gain_nonneg[OF pos, of ?gl ?gr] assms(8) by simp
  with L cg show ?thesis by blast
qed

theorem calculate_gain_nonneg_unregularised_witness:
  "\<exists>L gain. leaf_loss [1, 1] [1, 1] 0 = Inr L \<and>
           calculate_gain L [1, 2] [1, 1] [1, 1] (3/2) 0 = Inr gain \<and> 0 \<le> gain"
  by (rule calculate_gain_nonneg_unregularised [of "[1, 1]" "[1, 1]" "[1, 2]" 1 2 "3/2" 0])
     (simp_all add: left_sum_def right_sum_def)



section \<open>Properties of the two searches\<close>

lemma running_best_cases:
  assumes "running_best ps (s, b) = (s', b')"
  shows "b \<le> b' \<and> (\<forall>p \<in> set ps. snd p \<le> b') \<and>
         ((s', b') = (s, b) \<or>
          (\<exists>k < length ps. ps ! k = (s', b') \<and> b < b' \<and> (\<forall>j < k. snd (ps ! j) < b')))"
  using assms
proof (induction ps arbitrary: s b)
  case Nil
  then show ?case by simp
next
  case (Cons p ps)
  obtain k x where p: "p = (k, x)" by (cases p)
  show ?case
  proof (cases "x > b")
    case True
    with Cons.prems p have run: "running_best ps (k, x) = (s', b')" by simp
    from Cons.IH[OF run] have le: "x \<le> b'" and all: "\<forall>q \<in> set ps. snd q \<le> b'"
      and alt: "(s', b') = (k, x) \<or>
          (\<exists>n < length ps. ps ! n = (s', b') \<and> x < b' \<and> (\<forall>j < n. snd (ps ! j) < b'))"
      by auto
    from alt have "\<exists>n < length (p # ps). (p # ps) ! n = (s', b') \<and> b < b' \<and>
                     (\<forall>j < n. snd ((p # ps) ! j) < b')"
    proof
      assume "(s', b') = (k, x)"
      with p True show ?thesis by (intro exI[of _ 0]) simp
    next
      assume "\<exists>n < length ps. ps ! n = (s', b') \<and> x < b' \<and> (\<forall>j < n. snd (ps ! j) < b')"
      then obtain n where n: "n < length ps" "ps ! n = (s', b')" "x < b'"
        "\<forall>j < n. snd (ps ! j) < b'" by blast
      have "\<forall>j < Suc n. snd ((p # ps) ! j) < b'"
      proof (intro allI impI)
        fix j assume "j < Suc n"
        then show "snd ((p # ps) ! j) < b'" using n p by (cases j) auto
      qed
      with n True show ?thesis by (intro exI[of _ "Suc n"]) auto
    qed
    with le all True p show ?thesis by auto
  next
    case False
    with Cons.prems p have run: "running_best ps (s, b) = (s', b')" by simp
    from Cons.IH[OF run] have le: "b \<le> b'" and all: "\<forall>q \<in> set ps. snd q \<le> b'"
      and alt: "(s', b') = (s, b) \<or>
          (\<exists>n < length ps. ps ! n = (s', b') \<and> b < b' \<and> (\<forall>j < n. snd (ps ! j) < b'))"
      by auto
    from alt have "(s', b') = (s, b) \<or> (\<exists>n < length (p # ps). (p # ps) ! n = (s', b') \<and> b < b' \<and>
                     (\<forall>j < n. snd ((p # ps) ! j) < b'))"
    proof
      assume "(s', b') = (s, b)" then show ?thesis by simp
    next
      assume "\<exists>n < length ps. ps ! n = (s', b') \<and> b < b' \<and> (\<forall>j < n. snd (ps ! j) < b')"
      then obtain n where n: "n < length ps" "ps ! n = (s', b')" "b < b'"
        "\<forall>j < n. snd (ps ! j) < b'" by blast
      have "\<forall>j < Suc n. snd ((p # ps) ! j) < b'"
      proof (intro allI impI)
        fix j assume "j < Suc n"
        then show "snd ((p # ps) ! j) < b'" using n p False by (cases j) auto
      qed
      with n show ?thesis by (intro disjI2 exI[of _ "Suc n"]) auto
    qed
    with le all False p show ?thesis by auto
  qed
qed

lemma threshold_loop_running_best:
  assumes "threshold_loop L train g h lam unq idx st = Inr r"
  shows "\<exists>xs. map (\<lambda>i. calculate_gain L train g h ((unq ! (i - 1) + unq ! i) / 2) lam) idx
                = map Inr xs \<and>
              r = running_best (zip (map (\<lambda>i. Some ((unq ! (i - 1) + unq ! i) / 2)) idx) xs) st"
  using assms
proof (induction idx arbitrary: st)
  case Nil
  then show ?case by simp
next
  case (Cons i idx)
  obtain t b where st: "st = (t, b)" by (cases st)
  let ?c = "(unq ! (i - 1) + unq ! i) / 2"
  from Cons.prems st obtain x where x: "calculate_gain L train g h ?c lam = Inr x"
    and run: "threshold_loop L train g h lam unq idx (if x > b then (Some ?c, x) else (t, b)) = Inr r"
    by (auto simp: Let_def split: sum.splits if_splits)
  from Cons.IH[OF run] obtain xs where
    xs: "map (\<lambda>i. calculate_gain L train g h ((unq ! (i - 1) + unq ! i) / 2) lam) idx = map Inr xs"
    and r: "r = running_best (zip (map (\<lambda>i. Some ((unq ! (i - 1) + unq ! i) / 2)) idx) xs)
                  (if x > b then (Some ?c, x) else (t, b))"
    by blast
  show ?case
    by (rule exI[of _ "x # xs"]) (use x xs r st in auto)
qed

lemma split_loop_running_best:
  assumes "split_loop train g h lam idx (f, st) = Inr (f', r)"
  shows "\<exists>rs. map (\<lambda>i. find_threshold g h (column train i) lam) idx = map Inr rs \<and>
              ((f', fst r), snd r) =
                running_best (zip (zip idx (map fst rs)) (map snd rs)) ((f, fst st), snd st)"
  using assms
proof (induction idx arbitrary: f st)
  case Nil
  then show ?case by simp
next
  case (Cons i idx)
  obtain t b where st: "st = (t, b)" by (cases st)
  from Cons.prems st obtain t1 b1 where x: "find_threshold g h (column train i) lam = Inr (t1, b1)"
    and run: "split_loop train g h lam idx (if b1 > b then (i, t1, b1) else (f, t, b)) = Inr (f', r)"
    by (auto split: sum.splits if_splits)
  show ?case
  proof (cases "b1 > b")
    case True
    with run have "split_loop train g h lam idx (i, (t1, b1)) = Inr (f', r)" by simp
    from Cons.IH[OF this] obtain rs where
      "map (\<lambda>i. find_threshold g h (column train i) lam) idx = map Inr rs"
      "((f', fst r), snd r) = running_best (zip (zip idx (map fst rs)) (map snd rs)) ((i, t1), b1)"
      by auto
    then show ?thesis using x st True
      by (intro exI[of _ "(t1, b1) # rs"]) auto
  next
    case False
    with run have "split_loop train g h lam idx (f, (t, b)) = Inr (f', r)" by simp
    from Cons.IH[OF this] obtain rs where
      "map (\<lambda>i. find_threshold g h (column train i) lam) idx = map Inr rs"
      "((f', fst r), snd r) = running_best (zip (zip idx (map fst rs)) (map snd rs)) ((f, t), b)"
      by auto
    then show ?thesis using x st False
      by (intro exI[of _ "(t1, b1) # rs"]) auto
  qed
qed


lemma find_threshold_char:
  assumes "find_threshold g h train lam = Inr (t, b)"
  shows "\<exists>L xs. leaf_loss g h lam = Inr L \<and> length xs = length (unique train) - 1 \<and>
           (\<forall>k < length xs.
              calculate_gain L train g h (candidate train (Suc k)) lam = Inr (xs ! k)) \<and>
           (t, b) = running_best
                      (zip (map (\<lambda>i. Some (candidate train i)) [1..<length (unique train)]) xs)
                      (None, 0)"
proof -
  let ?idx = "[1..<length (unique train)]"
  from assms obtain L where L: "leaf_loss g h lam = Inr L"
    and run: "threshold_loop L train g h lam (unique train) ?idx (None, 0) = Inr (t, b)"
    by (auto simp: find_threshold_def Let_def split: sum.splits)
  from threshold_loop_running_best[OF run] obtain xs where
    xs: "map (\<lambda>i. calculate_gain L train g h (candidate train i) lam) ?idx = map Inr xs"
    and r: "(t, b) = running_best (zip (map (\<lambda>i. Some (candidate train i)) ?idx) xs) (None, 0)"
    unfolding candidate_def by blast
  from xs have len: "length xs = length (unique train) - 1"
    using length_map[of Inr xs] by (metis length_map length_upt)
  have "calculate_gain L train g h (candidate train (Suc k)) lam = Inr (xs ! k)"
    if "k < length xs" for k
  proof -
    have "map (\<lambda>i. calculate_gain L train g h (candidate train i) lam) ?idx ! k = map Inr xs ! k"
      using xs by simp
    then show ?thesis using that len by simp
  qed
  with L len r show ?thesis by blast
qed

lemma candidate_mono:
  assumes "j < k" "Suc k < length (unique train)"
  shows "candidate train (Suc j) < candidate train (Suc k)"
proof -
  have s: "sorted_wrt (<) (unique train)" using unique_props by blast
  have "unique train ! j < unique train ! k" "unique train ! Suc j < unique train ! Suc k"
    using assms by (auto intro!: sorted_wrt_nth_less[OF s])
  then show ?thesis by (simp add: candidate_def)
qed

lemma find_threshold_best:
  assumes "find_threshold g h train lam = Inr (t, b)"
  shows "\<exists>L xs. leaf_loss g h lam = Inr L \<and> length xs = length (unique train) - 1 \<and>
           (\<forall>k < length xs.
              calculate_gain L train g h (candidate train (Suc k)) lam = Inr (xs ! k)) \<and>
           0 \<le> b \<and> (\<forall>k < length xs. xs ! k \<le> b) \<and>
           (t = None \<and> b = 0 \<or>
            (\<exists>k < length xs. t = Some (candidate train (Suc k)) \<and> b = xs ! k \<and> 0 < b \<and>
               (\<forall>j < k. xs ! j < b)))"
proof -
  let ?idx = "[1..<length (unique train)]"
  from find_threshold_char[OF assms] obtain L xs where
    L: "leaf_loss g h lam = Inr L" and len: "length xs = length (unique train) - 1"
    and gains: "\<forall>k < length xs.
              calculate_gain L train g h (candidate train (Suc k)) lam = Inr (xs ! k)"
    and r: "running_best (zip (map (\<lambda>i. Some (candidate train i)) ?idx) xs) (None, 0) = (t, b)"
    by metis
  let ?ps = "zip (map (\<lambda>i. Some (candidate train i)) ?idx) xs"
  have lps: "length ?ps = length xs" using len by simp
  have nth: "?ps ! k = (Some (candidate train (Suc k)), xs ! k)" if "k < length xs" for k
    using that len by simp
  from running_best_cases[OF r] have b0: "0 \<le> b" and all: "\<forall>p \<in> set ?ps. snd p \<le> b"
    and alt: "(t, b) = (None, 0) \<or>
       (\<exists>k < length ?ps. ?ps ! k = (t, b) \<and> 0 < b \<and> (\<forall>j < k. snd (?ps ! j) < b))"
    by auto
  have le: "\<forall>k < length xs. xs ! k \<le> b"
  proof (intro allI impI)
    fix k assume k: "k < length xs"
    then have "?ps ! k \<in> set ?ps" using lps by (metis nth_mem)
    with all nth[OF k] show "xs ! k \<le> b" by fastforce
  qed
  from alt have "t = None \<and> b = 0 \<or>
            (\<exists>k < length xs. t = Some (candidate train (Suc k)) \<and> b = xs ! k \<and> 0 < b \<and>
               (\<forall>j < k. xs ! j < b))"
  proof
    assume "(t, b) = (None, 0)" then show ?thesis by simp
  next
    assume "\<exists>k < length ?ps. ?ps ! k = (t, b) \<and> 0 < b \<and> (\<forall>j < k. snd (?ps ! j) < b)"
    then obtain k where k: "k < length xs" "?ps ! k = (t, b)" "0 < b"
      "\<forall>j < k. snd (?ps ! j) < b" using lps by auto
    have "\<forall>j < k. xs ! j < b"
    proof (intro allI impI)
      fix j assume "j < k"
      with k(1,4) nth[of j] show "xs ! j < b" by fastforce
    qed
    with k nth[OF k(1)] show ?thesis by auto
  qed
  with L len gains b0 le show ?thesis by blast
qed

lemma find_threshold_none_iff:
  assumes "find_threshold g h train lam = Inr (t, b)"
  shows "0 \<le> b \<and> (t = None \<longleftrightarrow> b = 0)"
  using find_threshold_best[OF assms] by auto


lemma find_best_split_best:
  assumes "find_best_split train g h lam = Inr (f, t, b)"
  shows "\<exists>rs. length rs = nfeat train \<and>
           (\<forall>i < nfeat train. find_threshold g h (column train i) lam = Inr (rs ! i)) \<and>
           0 \<le> b \<and> (\<forall>i < nfeat train. snd (rs ! i) \<le> b) \<and>
           (f = 0 \<and> t = None \<and> b = 0 \<or>
            f < nfeat train \<and> rs ! f = (t, b) \<and> 0 < b \<and> (\<forall>i < f. snd (rs ! i) < b))"
proof -
  let ?idx = "[0..<nfeat train]"
  from assms have "split_loop train g h lam ?idx (0, (None, 0)) = Inr (f, (t, b))"
    by (simp add: find_best_split_def)
  from split_loop_running_best[OF this] obtain rs where
    rs: "map (\<lambda>i. find_threshold g h (column train i) lam) ?idx = map Inr rs"
    and r: "running_best (zip (zip ?idx (map fst rs)) (map snd rs)) ((0, None), 0) = ((f, t), b)"
    by auto
  from rs have len: "length rs = nfeat train"
    by (metis length_map length_upt minus_nat.diff_0)
  have ft: "find_threshold g h (column train i) lam = Inr (rs ! i)" if "i < nfeat train" for i
  proof -
    have "map (\<lambda>i. find_threshold g h (column train i) lam) ?idx ! i = map Inr rs ! i"
      using rs by simp
    then show ?thesis using that len by simp
  qed
  let ?ps = "zip (zip ?idx (map fst rs)) (map snd rs)"
  have lps: "length ?ps = nfeat train" using len by simp
  have nth: "?ps ! i = ((i, fst (rs ! i)), snd (rs ! i))" if "i < nfeat train" for i
    using that len by simp
  from running_best_cases[OF r] have b0: "0 \<le> b" and all: "\<forall>p \<in> set ?ps. snd p \<le> b"
    and alt: "((f, t), b) = ((0, None), 0) \<or>
       (\<exists>k < length ?ps. ?ps ! k = ((f, t), b) \<and> 0 < b \<and> (\<forall>j < k. snd (?ps ! j) < b))"
    by auto
  have le: "\<forall>i < nfeat train. snd (rs ! i) \<le> b"
  proof (intro allI impI)
    fix i assume i: "i < nfeat train"
    then have "?ps ! i \<in> set ?ps" using lps by (metis nth_mem)
    with all nth[OF i] show "snd (rs ! i) \<le> b" by fastforce
  qed
  from alt have "f = 0 \<and> t = None \<and> b = 0 \<or>
            f < nfeat train \<and> rs ! f = (t, b) \<and> 0 < b \<and> (\<forall>i < f. snd (rs ! i) < b)"
  proof
    assume "((f, t), b) = ((0, None), 0)" then show ?thesis by simp
  next
    assume "\<exists>k < length ?ps. ?ps ! k = ((f, t), b) \<and> 0 < b \<and> (\<forall>j < k. snd (?ps ! j) < b)"
    then obtain k where k: "k < nfeat train" "?ps ! k = ((f, t), b)" "0 < b"
      "\<forall>j < k. snd (?ps ! j) < b" using lps by auto
    from k(2) nth[OF k(1)] have kf: "k = f" and rk: "rs ! k = (t, b)"
      by (auto simp: prod_eq_iff)
    have "\<forall>j < k. snd (rs ! j) < b"
    proof (intro allI impI)
      fix j assume "j < k"
      with k(1,4) nth[of j] show "snd (rs ! j) < b" by fastforce
    qed
    with k kf rk show ?thesis by auto
  qed
  with len ft b0 le show ?thesis by blast
qed

lemma find_best_split_none_iff:
  assumes "find_best_split train g h lam = Inr (f, t, b)"
  shows "0 \<le> b \<and> (t = None \<longleftrightarrow> b = 0)"
proof -
  from find_best_split_best[OF assms] obtain rs where
    ft: "\<forall>i < nfeat train. find_threshold g h (column train i) lam = Inr (rs ! i)"
    and b0: "0 \<le> b"
    and alt: "f = 0 \<and> t = None \<and> b = 0 \<or> f < nfeat train \<and> rs ! f = (t, b) \<and> 0 < b"
    by blast
  from alt show ?thesis
  proof
    assume "f = 0 \<and> t = None \<and> b = 0" then show ?thesis by simp
  next
    assume a: "f < nfeat train \<and> rs ! f = (t, b) \<and> 0 < b"
    with ft have "find_threshold g h (column train f) lam = Inr (t, b)" by simp
    from find_threshold_none_iff[OF this] a show ?thesis by auto
  qed
qed

text \<open>
  Claim C9. Whenever \<^verbatim>\<open>find_threshold\<close> or \<^verbatim>\<open>find_best_split\<close> returns, the
  threshold it returns is \<open>None\<close> if and only if the gain it returns is 0, and a
  threshold other than \<open>None\<close> comes with a strictly positive gain.
\<close>

theorem threshold_none_iff_zero_gain:
  "(find_threshold g h col lam = Inr (threshold, best_gain) \<longrightarrow>
      (threshold = None \<longleftrightarrow> best_gain = 0) \<and> (threshold \<noteq> None \<longrightarrow> 0 < best_gain)) \<and>
   (find_best_split train g h lam = Inr (feature, threshold', best_gain') \<longrightarrow>
      (threshold' = None \<longleftrightarrow> best_gain' = 0) \<and> (threshold' \<noteq> None \<longrightarrow> 0 < best_gain'))"
proof (intro conjI impI)
  assume a: "find_threshold g h col lam = Inr (threshold, best_gain)"
  from find_threshold_none_iff[OF a] show "threshold = None \<longleftrightarrow> best_gain = 0" by simp
  assume "threshold \<noteq> None"
  with find_threshold_none_iff[OF a] show "0 < best_gain" by auto
next
  assume a: "find_best_split train g h lam = Inr (feature, threshold', best_gain')"
  from find_best_split_none_iff[OF a] show "threshold' = None \<longleftrightarrow> best_gain' = 0" by simp
  assume "threshold' \<noteq> None"
  with find_best_split_none_iff[OF a] show "0 < best_gain'" by auto
qed

theorem threshold_none_iff_zero_gain_witness:
  "find_threshold [-9/2, -9/2, 9/2, 9/2] [1, 1, 1, 1] [1, 2, 3, 4] 1 = Inr (Some (5/2), 27) \<and>
   find_best_split \<lparr>nfeat = 1, rows = [[1], [2], [3], [4]]\<rparr> [-9/2, -9/2, 9/2, 9/2] [1, 1, 1, 1] 1
     = Inr (0, Some (5/2), 27) \<and>
   (0::real) < 27 \<and> (27::real) \<noteq> 0"
proof -
  have a: "find_threshold [-9/2, -9/2, 9/2, 9/2] [1, 1, 1, 1] [1, 2, 3, 4] 1 = Inr (Some (5/2), 27)"
    by code_simp
  have b: "find_best_split \<lparr>nfeat = 1, rows = [[1], [2], [3], [4]]\<rparr> [-9/2, -9/2, 9/2, 9/2] [1, 1, 1, 1] 1
     = Inr (0, Some (5/2), 27)"
    by code_simp
  from threshold_none_iff_zero_gain
    [of "[-9/2, -9/2, 9/2, 9/2]" "[1, 1, 1, 1]" "[1, 2, 3, 4]" 1 "Some (5/2)" 27
        "\<lparr>nfeat = 1, rows = [[1], [2], [3], [4]]\<rparr>" 0 "Some (5/2)" 27] a b
  show ?thesis by simp
qed

text \<open>
  Claim C7 as stated fails when no candidate has a positive gain. The column
  \<open>[1, 2]\<close> has the single candidate \<open>3/2\<close>; with \<open>g = h = [1, 1]\<close> and
  \<open>reg_lambda = 1\<close> its gain is \<open>-1/6\<close>, and \<^verbatim>\<open>find_threshold\<close> returns no
  threshold and the gain 0 instead of that candidate.
\<close>

theorem find_threshold_nonpositive_counterexample:
  "unique [1, 2] = [1, 2] \<and> candidate [1, 2] 1 = 3/2 \<and>
   leaf_loss [1, 1] [1, 1] 1 = Inr (- (2/3)) \<and>
   calculate_gain (- (2/3)) [1, 2] [1, 1] [1, 1] (candidate [1, 2] 1) 1 = Inr (- (1/6)) \<and>
   find_threshold [1, 1] [1, 1] [1, 2] 1 = Inr (None, 0)"
  by code_simp

text \<open>
  Claim C7, amended. When \<^verbatim>\<open>find_threshold\<close> returns, the candidates it has
  evaluated are exactly the midpoints of consecutive values of the sorted distinct
  values of the column. If some candidate has a positive gain, the result is the
  candidate of greatest gain, and among several of that gain the earliest, which is
  the smallest threshold; if none has, the result is no threshold and the gain 0.
\<close>

theorem find_threshold_argmax:
  assumes "find_threshold g h col lam = Inr (threshold, best_gain)"
  shows "sorted_wrt (<) (unique col) \<and> set (unique col) = set col \<and>
    (\<exists>L gains. leaf_loss g h lam = Inr L \<and> length gains = length (unique col) - 1 \<and>
       (\<forall>k < length gains. calculate_gain L col g h (candidate col (Suc k)) lam = Inr (gains ! k)) \<and>
       (if \<forall>k < length gains. gains ! k \<le> 0
        then threshold = None \<and> best_gain = 0
        else \<exists>k < length gains.
               threshold = Some (candidate col (Suc k)) \<and> best_gain = gains ! k \<and>
               (\<forall>j < length gains. gains ! j \<le> best_gain) \<and>
               (\<forall>j < k. gains ! j < best_gain \<and> candidate col (Suc j) < candidate col (Suc k))))"
proof -
  from find_threshold_best[OF assms] obtain L xs where
    L: "leaf_loss g h lam = Inr L" and len: "length xs = length (unique col) - 1"
    and gains: "\<forall>k < length xs. calculate_gain L col g h (candidate col (Suc k)) lam = Inr (xs ! k)"
    and le: "\<forall>k < length xs. xs ! k \<le> best_gain"
    and alt: "threshold = None \<and> best_gain = 0 \<or>
            (\<exists>k < length xs. threshold = Some (candidate col (Suc k)) \<and> best_gain = xs ! k \<and>
               0 < best_gain \<and> (\<forall>j < k. xs ! j < best_gain))"
    by blast
  have "if \<forall>k < length xs. xs ! k \<le> 0
        then threshold = None \<and> best_gain = 0
        else \<exists>k < length xs.
               threshold = Some (candidate col (Suc k)) \<and> best_gain = xs ! k \<and>
               (\<forall>j < length xs. xs ! j \<le> best_gain) \<and>
               (\<forall>j < k. xs ! j < best_gain \<and> candidate col (Suc j) < candidate col (Suc k))"
    using alt
  proof
    assume a: "threshold = None \<and> best_gain = 0"
    with le have "\<forall>k < length xs. xs ! k \<le> 0" by simp
    with a show ?thesis by simp
  next
    assume "\<exists>k < length xs. threshold = Some (candidate col (Suc k)) \<and> best_gain = xs ! k \<and>
               0 < best_gain \<and> (\<forall>j < k. xs ! j < best_gain)"
    then obtain k where k: "k < length xs" "threshold = Some (candidate col (Suc k))"
      "best_gain = xs ! k" "0 < best_gain" "\<forall>j < k. xs ! j < best_gain" by blast
    from k(1) len have "Suc k < length (unique col)" by simp
    then have mono: "\<forall>j < k. candidate col (Suc j) < candidate col (Suc k)"
      by (simp add: candidate_mono)
    from k have neg: "\<not> (\<forall>k < length xs. xs ! k \<le> 0)" by force
    have "\<exists>k < length xs.
               threshold = Some (candidate col (Suc k)) \<and> best_gain = xs ! k \<and>
               (\<forall>j < length xs. xs ! j \<le> best_gain) \<and>
               (\<forall>j < k. xs ! j < best_gain \<and> candidate col (Suc j) < candidate col (Suc k))"
      using k le mono by (intro exI[of _ k]) simp
    then show ?thesis by (subst if_not_P[OF neg])
  qed
  with L len gains unique_props[of col] show ?thesis by blast
qed

text \<open>
  Claim C8. When \<^verbatim>\<open>find_best_split\<close> returns, it has run \<^verbatim>\<open>find_threshold\<close> on
  every column. If every column's best gain is non-positive the result is feature 0,
  no threshold and the gain 0; otherwise it is the index, threshold and gain of the
  column of greatest best gain, the lowest index among several of that gain.
\<close>

theorem find_best_split_argmax:
  assumes "find_best_split train g h lam = Inr (feature, threshold, best_gain)"
  shows "\<exists>rs. length rs = nfeat train \<and>
           (\<forall>i < nfeat train. find_threshold g h (column train i) lam = Inr (rs ! i)) \<and>
           (if \<forall>i < nfeat train. snd (rs ! i) \<le> 0
            then feature = 0 \<and> threshold = None \<and> best_gain = 0
            else feature < nfeat train \<and> rs ! feature = (threshold, best_gain) \<and>
                 (\<forall>i < nfeat train. snd (rs ! i) \<le> best_gain) \<and>
                 (\<forall>i < feature. snd (rs ! i) < best_gain))"
proof -
  from find_best_split_best[OF assms] obtain rs where
    len: "length rs = nfeat train"
    and ft: "\<forall>i < nfeat train. find_threshold g h (column train i) lam = Inr (rs ! i)"
    and le: "\<forall>i < nfeat train. snd (rs ! i) \<le> best_gain"
    and alt: "feature = 0 \<and> threshold = None \<and> best_gain = 0 \<or>
            feature < nfeat train \<and> rs ! feature = (threshold, best_gain) \<and> 0 < best_gain \<and>
            (\<forall>i < feature. snd (rs ! i) < best_gain)"
    by blast
  have "if \<forall>i < nfeat train. snd (rs ! i) \<le> 0
            then feature = 0 \<and> threshold = None \<and> best_gain = 0
            else feature < nfeat train \<and> rs ! feature = (threshold, best_gain) \<and>
                 (\<forall>i < nfeat train. snd (rs ! i) \<le> best_gain) \<and>
                 (\<forall>i < feature. snd (rs ! i) < best_gain)"
    using alt
  proof
    assume a: "feature = 0 \<and> threshold = None \<and> best_gain = 0"
    with le have "\<forall>i < nfeat train. snd (rs ! i) \<le> 0" by simp
    with a show ?thesis by simp
  next
    assume a: "feature < nfeat train \<and> rs ! feature = (threshold, best_gain) \<and> 0 < best_gain \<and>
            (\<forall>i < feature. snd (rs ! i) < best_gain)"
    then have "\<not> (\<forall>i < nfeat train. snd (rs ! i) \<le> 0)" by force
    with a le show ?thesis by simp
  qed
  with len ft show ?thesis by blast
qed


theorem find_threshold_argmax_witness:
  "find_threshold [-9/2, -9/2, 9/2, 9/2] [1, 1, 1, 1] [1, 2, 3, 4] 1 = Inr (Some (5/2), 27) \<and>
   sorted_wrt (<) (unique [1, 2, 3, 4]) \<and> set (unique [1, 2, 3, 4]) = set [1, 2, 3, 4] \<and>
   (\<exists>L gains. leaf_loss [-9/2, -9/2, 9/2, 9/2] [1, 1, 1, 1] 1 = Inr L \<and>
       length gains = length (unique [1, 2, 3, 4]) - 1 \<and>
       (\<forall>k < length gains.
          calculate_gain L [1, 2, 3, 4] [-9/2, -9/2, 9/2, 9/2] [1, 1, 1, 1]
            (candidate [1, 2, 3, 4] (Suc k)) 1 = Inr (gains ! k)) \<and>
       (if \<forall>k < length gains. gains ! k \<le> 0
        then Some (5/2) = (None :: real option) \<and> (27::real) = 0
        else \<exists>k < length gains.
               Some (5/2) = Some (candidate [1, 2, 3, 4] (Suc k)) \<and> 27 = gains ! k \<and>
               (\<forall>j < length gains. gains ! j \<le> 27) \<and>
               (\<forall>j < k. gains ! j < 27 \<and>
                  candidate [1, 2, 3, 4] (Suc j) < candidate [1, 2, 3, 4] (Suc k))))"
proof -
  have a: "find_threshold [-9/2, -9/2, 9/2, 9/2] [1, 1, 1, 1] [1, 2, 3, 4] 1 = Inr (Some (5/2), 27)"
    by code_simp
  from a find_threshold_argmax[OF a] show ?thesis by (rule conjI)
qed

theorem find_best_split_argmax_witness:
  "find_best_split \<lparr>nfeat = 2, rows = [[0, 1], [0, 2], [1, 3], [1, 4]]\<rparr>
      [-9/2, -9/2, 9/2, 9/2] [1, 1, 1, 1] 1 = Inr (0, Some (1/2), 27) \<and>
   (\<exists>rs. length rs = nfeat \<lparr>nfeat = 2, rows = [[0, 1], [0, 2], [1, 3], [1, 4]]\<rparr> \<and>
      (\<forall>i < nfeat \<lparr>nfeat = 2, rows = [[0, 1], [0, 2], [1, 3], [1, 4]]\<rparr>.
         find_threshold [-9/2, -9/2, 9/2, 9/2] [1, 1, 1, 1]
           (column \<lparr>nfeat = 2, rows = [[0, 1], [0, 2], [1, 3], [1, 4]]\<rparr> i) 1 = Inr (rs ! i)) \<and>
      (if \<forall>i < nfeat \<lparr>nfeat = 2, rows = [[0, 1], [0, 2], [1, 3], [1, 4]]\<rparr>. snd (rs ! i) \<le> 0
       then (0::nat) = 0 \<and> Some (1/2) = (None :: real option) \<and> (27::real) = 0
       else 0 < nfeat \<lparr>nfeat = 2, rows = [[0, 1], [0, 2], [1, 3], [1, 4]]\<rparr> \<and>
            rs ! 0 = (Some (1/2), 27) \<and>
            (\<forall>i < nfeat \<lparr>nfeat = 2, rows = [[0, 1], [0, 2], [1, 3], [1, 4]]\<rparr>. snd (rs ! i) \<le> 27) \<and>
            (\<forall>i < 0. snd (rs ! i) < 27)))"
proof -
  have a: "find_best_split \<lparr>nfeat = 2, rows = [[0, 1], [0, 2], [1, 3], [1, 4]]\<rparr>
      [-9/2, -9/2, 9/2, 9/2] [1, 1, 1, 1] 1 = Inr (0, Some (1/2), 27)"
    by code_simp
  from a find_best_split_argmax[OF a] show ?thesis by (rule conjI)
qed



section \<open>Properties of the tree\<close>

declare construct_tree.simps [simp del]

lemma construct_tree_stop:
  assumes "depth = 0 \<or> int (length (rows train)) < Tree.min_sample_split self"
  shows "construct_tree self train g h depth =
           (case leaf_score g h (Tree.reg_lambda self) of Inl e \<Rightarrow> Inl e | Inr s \<Rightarrow> Inr (Leaf s))"
  using assms by (subst construct_tree.simps) simp

lemma construct_tree_no_gain:
  assumes "\<not> (depth = 0 \<or> int (length (rows train)) < Tree.min_sample_split self)"
    and "find_best_split train g h (Tree.reg_lambda self) = Inr (f, t, gain)"
    and "gain \<le> Tree.gamma self"
  shows "construct_tree self train g h depth =
           (case leaf_score g h (Tree.reg_lambda self) of Inl e \<Rightarrow> Inl e | Inr s \<Rightarrow> Inr (Leaf s))"
  using assms by (subst construct_tree.simps) simp

lemma construct_tree_search_error:
  assumes "\<not> (depth = 0 \<or> int (length (rows train)) < Tree.min_sample_split self)"
    and "find_best_split train g h (Tree.reg_lambda self) = Inl e"
  shows "construct_tree self train g h depth = Inl e"
  using assms by (subst construct_tree.simps) simp

lemma construct_tree_split:
  assumes "construct_tree self train g h depth = Inr node"
    and "\<not> (depth = 0 \<or> int (length (rows train)) < Tree.min_sample_split self)"
    and "find_best_split train g h (Tree.reg_lambda self) = Inr (f, t, gain)"
    and "\<not> gain \<le> Tree.gamma self"
  obtains th train_l g_l h_l train_r g_r h_r l r where
    "t = Some th" and "f < nfeat train"
    and "select_samples train g h (map (\<lambda>x. x < th) (column train f)) = Inr (train_l, g_l, h_l)"
    and "construct_tree self train_l g_l h_l (depth - 1) = Inr l"
    and "select_samples train g h (map Not (map (\<lambda>x. x < th) (column train f))) = Inr (train_r, g_r, h_r)"
    and "construct_tree self train_r g_r h_r (depth - 1) = Inr r"
    and "node = Internal f th l r"
  using assms
  by (subst (asm) construct_tree.simps)
     (auto simp: Let_def split: sum.splits option.splits if_splits prod.splits)

lemma boolean_index_filter:
  "boolean_index xs (map P xs) = Inr (filter P xs)"
proof -
  have "map fst (filter snd (zip xs (map P xs))) = filter P xs"
    by (induction xs) auto
  then show ?thesis by (simp add: boolean_index_def)
qed

lemma select_samples_rows_left:
  assumes "select_samples train g h (map (\<lambda>x. x < th) (column train f)) = Inr (train', g', h')"
  shows "rows train' = filter (\<lambda>row. row ! f < th) (rows train)"
proof -
  have "map (\<lambda>x. x < th) (column train f) = map (\<lambda>row. row ! f < th) (rows train)"
    by (simp add: column_def comp_def)
  with select_samples_parts(1)[OF assms] show ?thesis
    by (simp add: boolean_index_filter)
qed

lemma select_samples_rows_right:
  assumes "select_samples train g h (map Not (map (\<lambda>x. x < th) (column train f))) = Inr (train', g', h')"
  shows "rows train' = filter (\<lambda>row. \<not> row ! f < th) (rows train)"
proof -
  have "map Not (map (\<lambda>x. x < th) (column train f)) = map (\<lambda>row. \<not> row ! f < th) (rows train)"
    by (simp add: column_def comp_def)
  with select_samples_parts(1)[OF assms] show ?thesis
    by (simp add: boolean_index_filter)
qed

lemma construct_tree_height:
  assumes "construct_tree self train g h depth = Inr node" and "0 \<le> depth"
  shows "int (height node) \<le> depth"
  using assms
proof (induction "length (rows train)" arbitrary: train g h depth node rule: less_induct)
  case less
  show ?case
  proof (cases "depth = 0 \<or> int (length (rows train)) < Tree.min_sample_split self")
    case True
    from less.prems(1) construct_tree_stop[OF True, of g h] obtain s where "node = Leaf s"
      by (auto split: sum.splits)
    with less.prems(2) show ?thesis by simp
  next
    case False
    from less.prems(1) construct_tree_search_error[OF False] obtain f t gain where
      fbs: "find_best_split train g h (Tree.reg_lambda self) = Inr (f, t, gain)"
      by (cases "find_best_split train g h (Tree.reg_lambda self)") auto
    show ?thesis
    proof (cases "gain \<le> Tree.gamma self")
      case True
      from less.prems(1) construct_tree_no_gain[OF False fbs True] obtain s where "node = Leaf s"
        by (auto split: sum.splits)
      with less.prems(2) show ?thesis by simp
    next
      case nogain: False
      from construct_tree_split[OF less.prems(1) False fbs nogain]
      obtain th train_l g_l h_l train_r g_r h_r l r where
        t: "t = Some th"
        and sl: "select_samples train g h (map (\<lambda>x. x < th) (column train f)) = Inr (train_l, g_l, h_l)"
        and cl: "construct_tree self train_l g_l h_l (depth - 1) = Inr l"
        and sr: "select_samples train g h (map Not (map (\<lambda>x. x < th) (column train f))) = Inr (train_r, g_r, h_r)"
        and cr: "construct_tree self train_r g_r h_r (depth - 1) = Inr r"
        and node: "node = Internal f th l r"
        by metis
      from False less.prems(2) have d: "0 \<le> depth - 1" by simp
      have "length (rows train_l) < length (rows train)"
        using fbs sl unfolding t by (rule split_left_smaller)
      from less.hyps[OF this cl d] have hl: "int (height l) \<le> depth - 1" .
      have "length (rows train_r) < length (rows train)"
        using fbs sr unfolding t by (rule split_right_smaller)
      from less.hyps[OF this cr d] have hr: "int (height r) \<le> depth - 1" .
      from hl hr node show ?thesis by simp
    qed
  qed
qed


lemma find_best_split_candidate:
  assumes "find_best_split train g h lam = Inr (f, Some th, gain)"
  shows "th \<in> set (map (candidate (column train f)) [1..<length (unique (column train f))])"
proof -
  from find_best_split_best[OF assms] obtain rs where
    ft: "\<forall>i < nfeat train. find_threshold g h (column train i) lam = Inr (rs ! i)"
    and "f < nfeat train \<and> rs ! f = (Some th, gain)"
    by auto
  then have "find_threshold g h (column train f) lam = Inr (Some th, gain)" by simp
  from find_threshold_best[OF this] obtain xs :: "real list" and k where
    "length xs = length (unique (column train f)) - 1" "k < length xs"
    "Some th = Some (candidate (column train f) (Suc k))"
    by blast
  then show ?thesis by auto
qed

lemma construct_tree_nondegenerate_aux:
  assumes "construct_tree self train g h depth = Inr node"
  shows "nondegenerate node (rows train)"
  using assms
proof (induction "length (rows train)" arbitrary: train g h depth node rule: less_induct)
  case less
  show ?case
  proof (cases "depth = 0 \<or> int (length (rows train)) < Tree.min_sample_split self")
    case True
    from less.prems(1) construct_tree_stop[OF True, of g h] obtain s where "node = Leaf s"
      by (auto split: sum.splits)
    then show ?thesis by simp
  next
    case False
    from less.prems(1) construct_tree_search_error[OF False] obtain f t gain where
      fbs: "find_best_split train g h (Tree.reg_lambda self) = Inr (f, t, gain)"
      by (cases "find_best_split train g h (Tree.reg_lambda self)") auto
    show ?thesis
    proof (cases "gain \<le> Tree.gamma self")
      case True
      from less.prems(1) construct_tree_no_gain[OF False fbs True] obtain s where "node = Leaf s"
        by (auto split: sum.splits)
      then show ?thesis by simp
    next
      case nogain: False
      from construct_tree_split[OF less.prems(1) False fbs nogain]
      obtain th train_l g_l h_l train_r g_r h_r l r where
        t: "t = Some th"
        and sl: "select_samples train g h (map (\<lambda>x. x < th) (column train f)) = Inr (train_l, g_l, h_l)"
        and cl: "construct_tree self train_l g_l h_l (depth - 1) = Inr l"
        and sr: "select_samples train g h (map Not (map (\<lambda>x. x < th) (column train f))) = Inr (train_r, g_r, h_r)"
        and cr: "construct_tree self train_r g_r h_r (depth - 1) = Inr r"
        and node: "node = Internal f th l r"
        by metis
      let ?left = "filter (\<lambda>row. row ! f < th) (rows train)"
      let ?right = "filter (\<lambda>row. \<not> row ! f < th) (rows train)"
      have rl: "rows train_l = ?left" using sl by (rule select_samples_rows_left)
      have rr: "rows train_r = ?right" using sr by (rule select_samples_rows_right)
      have ll: "length (rows train_l) < length (rows train)"
        using fbs sl unfolding t by (rule split_left_smaller)
      have lr: "length (rows train_r) < length (rows train)"
        using fbs sr unfolding t by (rule split_right_smaller)
      have sum: "length ?left + length ?right = length (rows train)"
        by (rule sum_length_filter_compl)
      from ll lr sum have ne: "?left \<noteq> []" "?right \<noteq> []"
        unfolding rl rr by auto
      have cand: "th \<in> set (map (candidate (column train f)) [1..<length (unique (column train f))])"
        using fbs unfolding t by (rule find_best_split_candidate)
      from less.hyps[OF ll cl] have nl: "nondegenerate l ?left" unfolding rl .
      from less.hyps[OF lr cr] have nr: "nondegenerate r ?right" unfolding rr .
      from ne cand nl nr show ?thesis
        unfolding node by (simp add: column_def Let_def)
    qed
  qed
qed


subsection \<open>When the construction returns\<close>

text \<open>
  With gradients and hessians of the length of the sample matrix, a positive
  \<open>reg_lambda\<close>, hessians that are not negative and a \<open>gamma\<close> that is not negative,
  no denominator is zero, no mask has the wrong length and every threshold that is
  used exists: \<^verbatim>\<open>construct_tree\<close> returns a node.
\<close>

lemma left_sum_nonneg: "\<forall>x \<in> set v. 0 \<le> x \<Longrightarrow> 0 \<le> left_sum feature v t"
  unfolding left_sum_def by (intro sum_list_nonneg) (auto dest: set_zip_rightD)

lemma right_sum_nonneg: "\<forall>x \<in> set v. 0 \<le> x \<Longrightarrow> 0 \<le> right_sum feature v t"
  unfolding right_sum_def by (intro sum_list_nonneg) (auto dest: set_zip_rightD)

lemma calculate_gain_returns:
  assumes "length feature = length g" "length h = length g" "0 < lam" "\<forall>x \<in> set h. 0 \<le> x"
  shows "\<exists>gain. calculate_gain L feature g h t lam = Inr gain"
proof -
  have "left_sum feature h t + lam \<noteq> 0" "right_sum feature h t + lam \<noteq> 0"
    using left_sum_nonneg[OF assms(4), of feature t] right_sum_nonneg[OF assms(4), of feature t]
      assms(3) by simp_all
  with assms(1,2) show ?thesis by (simp add: calculate_gain_eq)
qed

lemma threshold_loop_returns:
  assumes "\<And>t. \<exists>gain. calculate_gain L train g h t lam = Inr gain"
  shows "\<exists>r. threshold_loop L train g h lam unq idx st = Inr r"
proof (induction idx arbitrary: st)
  case Nil
  then show ?case by simp
next
  case (Cons i idx)
  obtain t b where st: "st = (t, b)" by (cases st)
  from assms obtain x where
    "calculate_gain L train g h ((unq ! (i - 1) + unq ! i) / 2) lam = Inr x" by blast
  with Cons.IH st show ?case by (simp add: Let_def)
qed

lemma find_threshold_returns:
  assumes "length train = length g" "length h = length g" "0 < lam" "\<forall>x \<in> set h. 0 \<le> x"
  shows "\<exists>r. find_threshold g h train lam = Inr r"
proof -
  have "0 \<le> sum_list h" using assms(4) by (intro sum_list_nonneg) simp
  with assms(3) have "sum_list h + lam \<noteq> 0" by simp
  then obtain L where L: "leaf_loss g h lam = Inr L"
    by (simp add: leaf_loss_def divide_checked_def)
  from threshold_loop_returns[of L train g h lam] calculate_gain_returns[OF assms]
  obtain r where "threshold_loop L train g h lam (unique train) [1..<length (unique train)] (None, 0) = Inr r"
    by blast
  with L show ?thesis by (simp add: find_threshold_def)
qed

lemma split_loop_returns:
  assumes "\<And>i. \<exists>r. find_threshold g h (column train i) lam = Inr r"
  shows "\<exists>r. split_loop train g h lam idx st = Inr r"
proof (induction idx arbitrary: st)
  case Nil
  show ?case by (rule exI[of _ st]) simp
next
  case (Cons i idx)
  obtain f t b where st: "st = (f, t, b)" by (metis surj_pair)
  from assms obtain t1 b1 where "find_threshold g h (column train i) lam = Inr (t1, b1)"
    by (metis surj_pair)
  with Cons.IH st show ?case by simp
qed

lemma find_best_split_returns:
  assumes "length g = length (rows train)" "length h = length (rows train)" "0 < lam"
    "\<forall>x \<in> set h. 0 \<le> x"
  shows "\<exists>r. find_best_split train g h lam = Inr r"
proof -
  have "\<exists>r. find_threshold g h (column train i) lam = Inr r" for i
    using assms by (intro find_threshold_returns) (simp_all add: column_def)
  from split_loop_returns[of g h train lam, OF this] show ?thesis
    by (simp add: find_best_split_def)
qed

lemma boolean_index_returns:
  assumes "length index = length xs"
  shows "\<exists>ys. boolean_index xs index = Inr ys \<and> set ys \<subseteq> set xs \<and>
               length ys = length (filter id index)"
proof -
  have "length (filter snd (zip xs index)) = length (filter id index)"
    using assms[symmetric] by (induction xs index rule: list_induct2) auto
  moreover have "set (map fst (filter snd (zip xs index))) \<subseteq> set xs"
    by (auto dest: set_zip_leftD)
  ultimately show ?thesis using assms by (simp add: boolean_index_def)
qed

lemma select_samples_returns:
  assumes "length g = length (rows train)" "length h = length (rows train)"
    "length index = length (rows train)"
  shows "\<exists>train' g' h'. select_samples train g h index = Inr (train', g', h') \<and>
           length g' = length (rows train') \<and> length h' = length (rows train') \<and>
           set h' \<subseteq> set h"
proof -
  from boolean_index_returns[of index "rows train"] assms(3) obtain rs where
    rs: "boolean_index (rows train) index = Inr rs" "length rs = length (filter id index)" by auto
  from boolean_index_returns[of index g] assms(1,3) obtain gs where
    gs: "boolean_index g index = Inr gs" "length gs = length (filter id index)" by auto
  from boolean_index_returns[of index h] assms(2,3) obtain hs where
    hs: "boolean_index h index = Inr hs" "length hs = length (filter id index)" "set hs \<subseteq> set h"
    by auto
  from rs gs hs show ?thesis by (simp add: select_samples_def)
qed

lemma construct_tree_internal:
  assumes "\<not> (depth = 0 \<or> int (length (rows train)) < Tree.min_sample_split self)"
    and "find_best_split train g h (Tree.reg_lambda self) = Inr (f, Some th, gain)"
    and "\<not> gain \<le> Tree.gamma self" and "f < nfeat train"
    and "select_samples train g h (map (\<lambda>x. x < th) (column train f)) = Inr (train_l, g_l, h_l)"
    and "construct_tree self train_l g_l h_l (depth - 1) = Inr l"
    and "select_samples train g h (map Not (map (\<lambda>x. x < th) (column train f))) = Inr (train_r, g_r, h_r)"
    and "construct_tree self train_r g_r h_r (depth - 1) = Inr r"
  shows "construct_tree self train g h depth = Inr (Internal f th l r)"
  using assms by (subst construct_tree.simps) (simp add: Let_def)

lemma construct_tree_returns:
  assumes "length g = length (rows train)" "length h = length (rows train)"
    and "0 < Tree.reg_lambda self" and "\<forall>x \<in> set h. 0 \<le> x" and "0 \<le> Tree.gamma self"
  shows "\<exists>node. construct_tree self train g h depth = Inr node"
  using assms(1,2,4)
proof (induction "length (rows train)" arbitrary: train g h depth rule: less_induct)
  case less
  have "0 \<le> sum_list h" using less.prems(3) by (intro sum_list_nonneg) simp
  with assms(3) have "sum_list h + Tree.reg_lambda self \<noteq> 0" by simp
  then obtain s where s: "leaf_score g h (Tree.reg_lambda self) = Inr s"
    by (simp add: leaf_score_def divide_checked_def)
  show ?case
  proof (cases "depth = 0 \<or> int (length (rows train)) < Tree.min_sample_split self")
    case True
    from construct_tree_stop[OF True, of g h] s show ?thesis by simp
  next
    case False
    from find_best_split_returns[OF less.prems(1,2) assms(3) less.prems(3)]
    obtain f t gain where fbs: "find_best_split train g h (Tree.reg_lambda self) = Inr (f, t, gain)"
      by (metis surj_pair)
    show ?thesis
    proof (cases "gain \<le> Tree.gamma self")
      case True
      from construct_tree_no_gain[OF False fbs True] s show ?thesis by simp
    next
      case nogain: False
      with assms(5) have "gain \<noteq> 0" by auto
      with find_best_split_none_iff[OF fbs] obtain th where t: "t = Some th" by auto
      note fbs' = fbs[unfolded t]
      from find_best_split_some[OF fbs'] have f: "f < nfeat train" by simp
      let ?index = "map (\<lambda>x. x < th) (column train f)"
      have li: "length ?index = length (rows train)" "length (map Not ?index) = length (rows train)"
        by (simp_all add: column_def)
      from select_samples_returns[OF less.prems(1,2) li(1)] obtain train_l g_l h_l where
        sl: "select_samples train g h ?index = Inr (train_l, g_l, h_l)"
        and wl: "length g_l = length (rows train_l)" "length h_l = length (rows train_l)"
          "set h_l \<subseteq> set h" by blast
      from select_samples_returns[OF less.prems(1,2) li(2)] obtain train_r g_r h_r where
        sr: "select_samples train g h (map Not ?index) = Inr (train_r, g_r, h_r)"
        and wr: "length g_r = length (rows train_r)" "length h_r = length (rows train_r)"
          "set h_r \<subseteq> set h" by blast
      have "length (rows train_l) < length (rows train)"
        using fbs' sl by (rule split_left_smaller)
      from less.hyps[OF this wl(1,2), of "depth - 1"] wl(3) less.prems(3)
      obtain l where l: "construct_tree self train_l g_l h_l (depth - 1) = Inr l" by blast
      have "length (rows train_r) < length (rows train)"
        using fbs' sr by (rule split_right_smaller)
      from less.hyps[OF this wr(1,2), of "depth - 1"] wr(3) less.prems(3)
      obtain r where r: "construct_tree self train_r g_r h_r (depth - 1) = Inr r" by blast
      from construct_tree_internal[OF False fbs' nogain f sl l sr r] show ?thesis by blast
    qed
  qed
qed

text \<open>
  Claim C4. With \<open>remaining_depth = 0\<close> or fewer samples than \<open>min_sample_split\<close>,
  \<^verbatim>\<open>construct_tree\<close> is the leaf of \<^verbatim>\<open>leaf_score\<close> whatever the split search would
  do, so the search is not run. A call that returns a node returns a leaf with the score
  \<^verbatim>\<open>leaf_score(g, h, reg_lambda)\<close> if one of these two conditions holds or, failing
  both, the best gain of \<^verbatim>\<open>find_best_split\<close> is at most \<open>gamma\<close>; otherwise it
  returns an internal node with the feature and the threshold of the search. The call
  does return when \<open>g\<close> and \<open>h\<close> have one entry per sample, \<open>reg_lambda\<close> is
  positive and no hessian and not \<open>gamma\<close> is negative.
\<close>

theorem construct_tree_leaf_conditions:
  "(depth = 0 \<or> int (length (rows train)) < Tree.min_sample_split self \<longrightarrow>
      construct_tree self train g h depth =
        (case leaf_score g h (Tree.reg_lambda self) of Inl e \<Rightarrow> Inl e | Inr s \<Rightarrow> Inr (Leaf s))) \<and>
   (construct_tree self train g h depth = Inr node \<longrightarrow>
      (if depth = 0 \<or> int (length (rows train)) < Tree.min_sample_split self
       then \<exists>s. leaf_score g h (Tree.reg_lambda self) = Inr s \<and> node = Leaf s
       else \<exists>feature threshold gain.
              find_best_split train g h (Tree.reg_lambda self) = Inr (feature, threshold, gain) \<and>
              (if gain \<le> Tree.gamma self
               then \<exists>s. leaf_score g h (Tree.reg_lambda self) = Inr s \<and> node = Leaf s
               else \<exists>t l r. threshold = Some t \<and> node = Internal feature t l r))) \<and>
   (length g = length (rows train) \<and> length h = length (rows train) \<and>
    0 < Tree.reg_lambda self \<and> (\<forall>x \<in> set h. 0 \<le> x) \<and> 0 \<le> Tree.gamma self \<longrightarrow>
      (\<exists>node. construct_tree self train g h depth = Inr node))"
proof (intro conjI impI)
  assume "length g = length (rows train) \<and> length h = length (rows train) \<and>
    0 < Tree.reg_lambda self \<and> (\<forall>x \<in> set h. 0 \<le> x) \<and> 0 \<le> Tree.gamma self"
  then show "\<exists>node. construct_tree self train g h depth = Inr node"
    by (intro construct_tree_returns) simp_all
next
  assume "depth = 0 \<or> int (length (rows train)) < Tree.min_sample_split self"
  then show "construct_tree self train g h depth =
        (case leaf_score g h (Tree.reg_lambda self) of Inl e \<Rightarrow> Inl e | Inr s \<Rightarrow> Inr (Leaf s))"
    by (rule construct_tree_stop)
next
  assume ret: "construct_tree self train g h depth = Inr node"
  show "if depth = 0 \<or> int (length (rows train)) < Tree.min_sample_split self
       then \<exists>s. leaf_score g h (Tree.reg_lambda self) = Inr s \<and> node = Leaf s
       else \<exists>feature threshold gain.
              find_best_split train g h (Tree.reg_lambda self) = Inr (feature, threshold, gain) \<and>
              (if gain \<le> Tree.gamma self
               then \<exists>s. leaf_score g h (Tree.reg_lambda self) = Inr s \<and> node = Leaf s
               else \<exists>t l r. threshold = Some t \<and> node = Internal feature t l r)"
  proof (cases "depth = 0 \<or> int (length (rows train)) < Tree.min_sample_split self")
    case True
    from ret construct_tree_stop[OF True, of g h]
    have "\<exists>s. leaf_score g h (Tree.reg_lambda self) = Inr s \<and> node = Leaf s"
      by (auto split: sum.splits)
    with True show ?thesis by simp
  next
    case False
    from ret construct_tree_search_error[OF False] obtain f t gain where
      fbs: "find_best_split train g h (Tree.reg_lambda self) = Inr (f, t, gain)"
      by (cases "find_best_split train g h (Tree.reg_lambda self)") auto
    have "if gain \<le> Tree.gamma self
               then \<exists>s. leaf_score g h (Tree.reg_lambda self) = Inr s \<and> node = Leaf s
               else \<exists>th l r. t = Some th \<and> node = Internal f th l r"
    proof (cases "gain \<le> Tree.gamma self")
      case True
      from ret construct_tree_no_gain[OF False fbs True]
      have "\<exists>s. leaf_score g h (Tree.reg_lambda self) = Inr s \<and> node = Leaf s"
        by (auto split: sum.splits)
      with True show ?thesis by simp
    next
      case nogain: False
      from construct_tree_split[OF ret False fbs nogain]
      have "\<exists>th l r. t = Some th \<and> node = Internal f th l r" by metis
      with nogain show ?thesis by simp
    qed
    with fbs False show ?thesis by simp
  qed
qed

theorem construct_tree_leaf_conditions_witness:
  "construct_tree \<lparr>Tree.max_depth = 2, min_sample_split = 2, reg_lambda = 1, gamma = 0, estimator = None\<rparr>
     \<lparr>nfeat = 1, rows = [[1], [2], [3], [4]]\<rparr> [9/2, 7/2, -9/2, -7/2] [1, 1, 1, 1] 2
     = Inr (Internal 0 (5/2) (Leaf (- (8/3))) (Leaf (8/3))) \<and>
   find_best_split \<lparr>nfeat = 1, rows = [[1], [2], [3], [4]]\<rparr> [9/2, 7/2, -9/2, -7/2] [1, 1, 1, 1] 1
     = Inr (0, Some (5/2), 64/3) \<and>
   construct_tree \<lparr>Tree.max_depth = 2, min_sample_split = 2, reg_lambda = 1, gamma = 0, estimator = None\<rparr>
     \<lparr>nfeat = 1, rows = [[1], [2]]\<rparr> [9/2, 7/2] [1, 1] 0 = Inr (Leaf (- (8/3)))"
proof -
  let ?self = "\<lparr>Tree.max_depth = 2, min_sample_split = 2, reg_lambda = 1, gamma = 0, estimator = None\<rparr>"
  let ?train = "\<lparr>nfeat = 1, rows = [[1], [2], [3], [4]]\<rparr>"
  let ?node = "Internal 0 (5/2) (Leaf (- (8/3))) (Leaf (8/3))"
  have a: "construct_tree ?self ?train [9/2, 7/2, -9/2, -7/2] [1, 1, 1, 1] 2 = Inr ?node"
    by code_simp
  have b: "find_best_split ?train [9/2, 7/2, -9/2, -7/2] [1, 1, 1, 1] 1 = Inr (0, Some (5/2), 64/3)"
    by code_simp
  have c: "leaf_score [9/2, 7/2] [1, 1] 1 = Inr (- (8/3))"
    by code_simp
  from construct_tree_leaf_conditions
         [of 0 "\<lparr>nfeat = 1, rows = [[1], [2]]\<rparr>" ?self "[9/2, 7/2]" "[1, 1]" "Leaf 0"] c
  have d: "construct_tree ?self \<lparr>nfeat = 1, rows = [[1], [2]]\<rparr> [9/2, 7/2] [1, 1] 0 = Inr (Leaf (- (8/3)))"
    by simp
  from a b d show ?thesis by (intro conjI)
qed


text \<open>
  Claim C5. A tree built by \<^verbatim>\<open>Tree.fit\<close> with \<open>max_depth = D \<ge> 0\<close> has height at
  most \<open>D\<close>: no leaf lies more than \<open>D\<close> edges below the root.
\<close>

theorem tree_fit_depth_bound:
  assumes "Tree_fit self train g h = Inr fitted" and "0 \<le> Tree.max_depth self"
  shows "\<exists>node. estimator fitted = Some node \<and> int (height node) \<le> Tree.max_depth self"
proof -
  from assms(1) obtain node where
    c: "construct_tree self train g h (Tree.max_depth self) = Inr node"
    and f: "fitted = self\<lparr>estimator := Some node\<rparr>"
    by (auto simp: Tree_fit_def split: sum.splits)
  from construct_tree_height[OF c assms(2)] f show ?thesis by simp
qed

theorem tree_fit_depth_bound_witness:
  "Tree_fit \<lparr>Tree.max_depth = 1, min_sample_split = 1, reg_lambda = 1, gamma = 0, estimator = None\<rparr>
      \<lparr>nfeat = 1, rows = [[1], [2], [3], [4]]\<rparr> [9/2, 7/2, -9/2, -7/2] [1, 1, 1, 1]
     = Inr \<lparr>Tree.max_depth = 1, min_sample_split = 1, reg_lambda = 1, gamma = 0,
            estimator = Some (Internal 0 (5/2) (Leaf (- (8/3))) (Leaf (8/3)))\<rparr> \<and>
   (\<exists>node. Some (Internal 0 (5/2) (Leaf (- (8/3))) (Leaf (8/3))) = Some node \<and>
           int (height node) \<le> 1)"
proof -
  let ?self = "\<lparr>Tree.max_depth = 1, min_sample_split = 1, reg_lambda = 1, gamma = 0, estimator = None\<rparr>"
  let ?fitted = "\<lparr>Tree.max_depth = 1, min_sample_split = 1, reg_lambda = 1, gamma = 0,
            estimator = Some (Internal 0 (5/2) (Leaf (- (8/3))) (Leaf (8/3)))\<rparr>"
  have a: "Tree_fit ?self \<lparr>nfeat = 1, rows = [[1], [2], [3], [4]]\<rparr> [9/2, 7/2, -9/2, -7/2] [1, 1, 1, 1]
             = Inr ?fitted"
    by code_simp
  have b: "0 \<le> Tree.max_depth ?self" by simp
  from tree_fit_depth_bound[OF a b] a show ?thesis by simp
qed

text \<open>
  Claim C6. In every tree that \<^verbatim>\<open>construct_tree\<close> returns, every internal node
  splits the samples that reach it into two non-empty parts, and its threshold is the
  midpoint of two consecutive distinct values of the split column of these samples.
\<close>

theorem construct_tree_nondegenerate:
  assumes "construct_tree self train g h depth = Inr node"
  shows "nondegenerate node (rows train)"
  using assms by (rule construct_tree_nondegenerate_aux)

theorem construct_tree_nondegenerate_witness:
  "construct_tree \<lparr>Tree.max_depth = 2, min_sample_split = 1, reg_lambda = 1, gamma = 0, estimator = None\<rparr>
      \<lparr>nfeat = 1, rows = [[1], [2], [3], [4]]\<rparr> [9/2, 1/2, -9/2, -1/2] [1, 1, 1, 1] 2
     = Inr (Internal 0 (5/2) (Internal 0 (3/2) (Leaf (- (9/4))) (Leaf (- (1/4))))
                             (Internal 0 (7/2) (Leaf (9/4)) (Leaf (1/4)))) \<and>
   nondegenerate (Internal 0 (5/2) (Internal 0 (3/2) (Leaf (- (9/4))) (Leaf (- (1/4))))
                             (Internal 0 (7/2) (Leaf (9/4)) (Leaf (1/4))))
     (rows \<lparr>nfeat = 1, rows = [[1], [2], [3], [4]]\<rparr>)"
proof -
  have a: "construct_tree \<lparr>Tree.max_depth = 2, min_sample_split = 1, reg_lambda = 1, gamma = 0, estimator = None\<rparr>
      \<lparr>nfeat = 1, rows = [[1], [2], [3], [4]]\<rparr> [9/2, 1/2, -9/2, -1/2] [1, 1, 1, 1] 2
     = Inr (Internal 0 (5/2) (Internal 0 (3/2) (Leaf (- (9/4))) (Leaf (- (1/4))))
                             (Internal 0 (7/2) (Leaf (9/4)) (Leaf (1/4))))"
    by code_simp
  from a construct_tree_nondegenerate[OF a] show ?thesis by (rule conjI)
qed



section \<open>Properties of the boosting loop\<close>

lemma collect_append:
  "collect (xs @ ys) =
     (case collect xs of
        Inl e \<Rightarrow> Inl e
      | Inr a \<Rightarrow> (case collect ys of Inl e \<Rightarrow> Inl e | Inr b \<Rightarrow> Inr (a @ b)))"
  by (induction xs) (auto split: sum.splits)

lemma collect_lengths:
  "collect (map f ts) = Inr ps \<Longrightarrow> (\<And>t p. f t = Inr p \<Longrightarrow> length p = n) \<Longrightarrow>
   \<forall>p \<in> set ps. length p = n"
proof (induction ts arbitrary: ps)
  case Nil
  then show ?case by simp
next
  case (Cons t ts)
  then show ?case by (auto split: sum.splits)
qed

lemma predict_rows_length: "predict_rows node rs = Inr ps \<Longrightarrow> length ps = length rs"
proof (induction rs arbitrary: ps)
  case Nil
  then show ?case by simp
next
  case (Cons r rs)
  then show ?case by (auto split: sum.splits)
qed

lemma Tree_predict_length: "Tree_predict t X = Inr p \<Longrightarrow> length p = length (rows X)"
  by (auto simp: Tree_predict_def split: option.splits dest: predict_rows_length)

lemma ensemble_score_Nil:
  "ensemble_score start rate [] X = Inr (replicate (length (rows X)) start)"
  by (simp add: ensemble_score_def map_replicate_const)

lemma ensemble_score_length:
  "ensemble_score start rate trees X = Inr sc \<Longrightarrow> length sc = length (rows X)"
  by (auto simp: ensemble_score_def split: sum.splits)

lemma ensemble_score_snoc:
  assumes "ensemble_score start rate trees X = Inr sc" and "Tree_predict t X = Inr p"
  shows "ensemble_score start rate (trees @ [t]) X = Inr (map2 (\<lambda>s x. s + rate * x) sc p)"
proof -
  from assms(1) obtain ps where
    ps: "collect (map (\<lambda>t. Tree_predict t X) trees) = Inr ps"
    and sc: "sc = map (\<lambda>j. start + (\<Sum>p\<leftarrow>ps. rate * p ! j)) [0..<length (rows X)]"
    by (auto simp: ensemble_score_def split: sum.splits)
  have lp: "length p = length (rows X)" using assms(2) by (rule Tree_predict_length)
  have c: "collect (map (\<lambda>t. Tree_predict t X) (trees @ [t])) = Inr (ps @ [p])"
    using ps assms(2) by (simp add: collect_append)
  have "map (\<lambda>j. start + (\<Sum>q\<leftarrow>ps @ [p]. rate * q ! j)) [0..<length (rows X)]
          = map2 (\<lambda>s x. s + rate * x) sc p"
    unfolding sc using lp by (intro nth_equalityI) simp_all
  with c show ?thesis by (simp add: ensemble_score_def)
qed

lemma fold_scores:
  assumes "\<forall>p \<in> set ps. length p = n" and "length score = n"
  shows "fold (\<lambda>p s. map2 (\<lambda>s x. s + rate * x) s p) ps score
           = map (\<lambda>j. score ! j + (\<Sum>p\<leftarrow>ps. rate * p ! j)) [0..<n]"
  using assms
proof (induction ps arbitrary: score)
  case Nil
  then show ?case by (intro nth_equalityI) simp_all
next
  case (Cons p ps)
  let ?s = "map2 (\<lambda>s x. s + rate * x) score p"
  from Cons.prems have len: "length ?s = n" by simp
  from Cons.prems have "\<forall>q \<in> set ps. length q = n" by simp
  from Cons.IH[OF this len]
  have "fold (\<lambda>p s. map2 (\<lambda>s x. s + rate * x) s p) ps ?s
          = map (\<lambda>j. ?s ! j + (\<Sum>p\<leftarrow>ps. rate * p ! j)) [0..<n]" .
  also have "\<dots> = map (\<lambda>j. score ! j + (\<Sum>q\<leftarrow>p # ps. rate * q ! j)) [0..<n]"
    using Cons.prems by (intro nth_equalityI) (simp_all add: add.assoc)
  finally show ?case by simp
qed

lemma predict_loop_collect:
  assumes "estimators self = Some ests" and "\<forall>i \<in> set idx. i < length ests"
  shows "predict_loop self X idx score =
           (case collect (map (\<lambda>i. Tree_predict (ests ! i) X) idx) of
              Inl e \<Rightarrow> Inl e
            | Inr ps \<Rightarrow> Inr (fold (\<lambda>p s. map2 (\<lambda>s x. s + learning_rate self * x) s p) ps score))"
  using assms
proof (induction idx arbitrary: score)
  case Nil
  then show ?case by simp
next
  case (Cons i idx)
  then show ?case by (auto split: sum.splits)
qed

lemma predict_loop_ensemble:
  assumes "estimators self = Some ests"
  shows "predict_loop self X [0..<length ests] (replicate (length (rows X)) start)
           = ensemble_score start (learning_rate self) ests X"
proof -
  have m: "map (\<lambda>i. Tree_predict (ests ! i) X) [0..<length ests] = map (\<lambda>t. Tree_predict t X) ests"
    by (intro nth_equalityI) simp_all
  show ?thesis
  proof (cases "collect (map (\<lambda>t. Tree_predict t X) ests)")
    case (Inl e)
    then show ?thesis
      using predict_loop_collect[OF assms, of "[0..<length ests]" X] m
      by (simp add: ensemble_score_def)
  next
    case (Inr ps)
    from collect_lengths[OF Inr, of "length (rows X)"]
    have "\<forall>p \<in> set ps. length p = length (rows X)" by (simp add: Tree_predict_length)
    from fold_scores[OF this, of "replicate (length (rows X)) start" "learning_rate self"]
    have "fold (\<lambda>p s. map2 (\<lambda>s x. s + learning_rate self * x) s p) ps (replicate (length (rows X)) start)
            = map (\<lambda>j. start + (\<Sum>p\<leftarrow>ps. learning_rate self * p ! j)) [0..<length (rows X)]"
      by simp
    then show ?thesis
      using predict_loop_collect[OF assms, of "[0..<length ests]" X] m Inr
      by (simp add: ensemble_score_def)
  qed
qed


lemma fit_loop_rounds:
  assumes "fit_loop self train target idx (ests0, score0) = Inr (ests, score)"
    and "ensemble_score start (learning_rate self) ests0 train = Inr score0"
  shows "\<exists>new. ests = ests0 @ new \<and> length new = length idx \<and>
     ensemble_score start (learning_rate self) ests train = Inr score \<and>
     (\<forall>k < length new. \<exists>obj sc g h. loss self = LossObject obj \<and>
         ensemble_score start (learning_rate self) (take (length ests0 + k) ests) train = Inr sc \<and>
         loss_g obj target sc = Inr g \<and> loss_h obj target sc = Inr h \<and>
         Tree_fit (new_Tree self) train g h = Inr (ests ! (length ests0 + k)))"
  using assms
proof (induction idx arbitrary: ests0 score0)
  case Nil
  then show ?case by simp
next
  case (Cons i idx)
  from Cons.prems(1) obtain obj g h est p where
    obj: "loss self = LossObject obj"
    and g: "loss_g obj target score0 = Inr g" and h: "loss_h obj target score0 = Inr h"
    and est: "Tree_fit (new_Tree self) train g h = Inr est"
    and p: "Tree_predict est train = Inr p"
    and run: "fit_loop self train target idx
                (ests0 @ [est], map2 (\<lambda>s x. s + learning_rate self * x) score0 p) = Inr (ests, score)"
    by (auto split: loss_arg.splits sum.splits)
  from ensemble_score_snoc[OF Cons.prems(2) p]
  have inv: "ensemble_score start (learning_rate self) (ests0 @ [est]) train
               = Inr (map2 (\<lambda>s x. s + learning_rate self * x) score0 p)" .
  from Cons.IH[OF run inv] obtain new where
    ests: "ests = (ests0 @ [est]) @ new" and len: "length new = length idx"
    and fin: "ensemble_score start (learning_rate self) ests train = Inr score"
    and rounds: "\<forall>k < length new. \<exists>obj sc g h. loss self = LossObject obj \<and>
         ensemble_score start (learning_rate self) (take (length (ests0 @ [est]) + k) ests) train = Inr sc \<and>
         loss_g obj target sc = Inr g \<and> loss_h obj target sc = Inr h \<and>
         Tree_fit (new_Tree self) train g h = Inr (ests ! (length (ests0 @ [est]) + k))"
    by blast
  have "\<forall>k < length (est # new). \<exists>obj sc g h. loss self = LossObject obj \<and>
         ensemble_score start (learning_rate self) (take (length ests0 + k) ests) train = Inr sc \<and>
         loss_g obj target sc = Inr g \<and> loss_h obj target sc = Inr h \<and>
         Tree_fit (new_Tree self) train g h = Inr (ests ! (length ests0 + k))"
  proof (intro allI impI)
    fix k assume k: "k < length (est # new)"
    show "\<exists>obj sc g h. loss self = LossObject obj \<and>
         ensemble_score start (learning_rate self) (take (length ests0 + k) ests) train = Inr sc \<and>
         loss_g obj target sc = Inr g \<and> loss_h obj target sc = Inr h \<and>
         Tree_fit (new_Tree self) train g h = Inr (ests ! (length ests0 + k))"
    proof (cases k)
      case 0
      have "take (length ests0) ests = ests0" "ests ! length ests0 = est"
        using ests by (simp_all add: nth_append)
      with 0 obj g h est Cons.prems(2) show ?thesis by auto
    next
      case (Suc k')
      with k have "k' < length new" by simp
      with rounds Suc show ?thesis by simp
    qed
  qed
  with ests len fin show ?case by (intro exI[of _ "est # new"]) simp
qed

lemma fit_loop_name:
  "loss self = LossName name \<Longrightarrow> fit_loop self train target (i # idx) st = Inl AttributeError"
  by (cases st) simp

lemma mean_nonempty: "target \<noteq> [] \<Longrightarrow> mean target = Inr (sum_list target / real (length target))"
  by (simp add: mean_def divide_checked_def)


subsection \<open>When fitting and predicting return\<close>

text \<open>
  A fitted tree splits on columns of its training matrix only, so it predicts on every
  well-formed matrix with as many columns. With the squared-error loss, a non-empty
  target of one entry per sample, a well-formed sample matrix, a positive
  \<open>reg_lambda\<close> and a \<open>gamma\<close> that is not negative, \<^verbatim>\<open>fit\<close> returns.
\<close>

lemma construct_tree_features:
  assumes "construct_tree self train g h depth = Inr node"
  shows "features_below (nfeat train) node"
  using assms
proof (induction "length (rows train)" arbitrary: train g h depth node rule: less_induct)
  case less
  show ?case
  proof (cases "depth = 0 \<or> int (length (rows train)) < Tree.min_sample_split self")
    case True
    from less.prems(1) construct_tree_stop[OF True, of g h] obtain s where "node = Leaf s"
      by (auto split: sum.splits)
    then show ?thesis by simp
  next
    case False
    from less.prems(1) construct_tree_search_error[OF False] obtain f t gain where
      fbs: "find_best_split train g h (Tree.reg_lambda self) = Inr (f, t, gain)"
      by (cases "find_best_split train g h (Tree.reg_lambda self)") auto
    show ?thesis
    proof (cases "gain \<le> Tree.gamma self")
      case True
      from less.prems(1) construct_tree_no_gain[OF False fbs True] obtain s where "node = Leaf s"
        by (auto split: sum.splits)
      then show ?thesis by simp
    next
      case nogain: False
      from construct_tree_split[OF less.prems(1) False fbs nogain]
      obtain th train_l g_l h_l train_r g_r h_r l r where
        t: "t = Some th" and f: "f < nfeat train"
        and sl: "select_samples train g h (map (\<lambda>x. x < th) (column train f)) = Inr (train_l, g_l, h_l)"
        and cl: "construct_tree self train_l g_l h_l (depth - 1) = Inr l"
        and sr: "select_samples train g h (map Not (map (\<lambda>x. x < th) (column train f))) = Inr (train_r, g_r, h_r)"
        and cr: "construct_tree self train_r g_r h_r (depth - 1) = Inr r"
        and node: "node = Internal f th l r"
        by metis
      have "length (rows train_l) < length (rows train)"
        using fbs sl unfolding t by (rule split_left_smaller)
      from less.hyps[OF this cl] select_samples_parts(4)[OF sl]
      have fl: "features_below (nfeat train) l" by simp
      have "length (rows train_r) < length (rows train)"
        using fbs sr unfolding t by (rule split_right_smaller)
      from less.hyps[OF this cr] select_samples_parts(4)[OF sr]
      have fr: "features_below (nfeat train) r" by simp
      from f fl fr node show ?thesis by simp
    qed
  qed
qed

lemma predict_single_returns:
  "features_below (length row) node \<Longrightarrow> \<exists>s. predict_single node row = Inr s"
  by (induction node) auto

lemma predict_rows_returns:
  "\<forall>row \<in> set rs. features_below (length row) node \<Longrightarrow> \<exists>ps. predict_rows node rs = Inr ps"
proof (induction rs)
  case Nil
  then show ?case by simp
next
  case (Cons row rs)
  then obtain ps where "predict_rows node rs = Inr ps" by auto
  moreover from Cons.prems obtain s where "predict_single node row = Inr s"
    using predict_single_returns[of row node] by auto
  ultimately show ?case by simp
qed

lemma Tree_fit_predict_returns:
  assumes "Tree_fit self train g h = Inr est" and "wf_matrix X" and "nfeat X = nfeat train"
  shows "\<exists>p. Tree_predict est X = Inr p"
proof -
  from assms(1) obtain node where
    c: "construct_tree self train g h (Tree.max_depth self) = Inr node"
    and e: "estimator est = Some node"
    by (auto simp: Tree_fit_def split: sum.splits)
  from construct_tree_features[OF c] assms(2,3)
  have "\<forall>row \<in> set (rows X). features_below (length row) node"
    by (simp add: wf_matrix_def)
  from predict_rows_returns[OF this] e show ?thesis by (simp add: Tree_predict_def)
qed

lemma collect_returns:
  "\<forall>t \<in> set ts. \<exists>p. f t = Inr p \<Longrightarrow> \<exists>ps. collect (map f ts) = Inr ps"
proof (induction ts)
  case Nil
  then show ?case by simp
next
  case (Cons t ts)
  then obtain ps p where "collect (map f ts) = Inr ps" "f t = Inr p" by auto
  then show ?case by simp
qed

lemma ensemble_score_returns:
  assumes "\<forall>t \<in> set trees. \<exists>p. Tree_predict t X = Inr p"
  shows "\<exists>sc. ensemble_score start rate trees X = Inr sc"
  using collect_returns[OF assms] by (auto simp: ensemble_score_def)

lemma Tree_fit_returns:
  assumes "length g = length (rows train)" "length h = length (rows train)"
    and "0 < Tree.reg_lambda self" and "\<forall>x \<in> set h. 0 \<le> x" and "0 \<le> Tree.gamma self"
  shows "\<exists>est. Tree_fit self train g h = Inr est"
  using construct_tree_returns[OF assms, of "Tree.max_depth self"]
  by (auto simp: Tree_fit_def)

lemma fit_loop_mse_returns:
  assumes "loss self = LossObject mse" and "wf_matrix train"
    and "length target = length (rows train)"
    and "0 < GBDT.reg_lambda self" and "0 \<le> GBDT.gamma self"
    and "length score = length (rows train)"
  shows "\<exists>r. fit_loop self train target idx (ests, score) = Inr r"
  using assms(6)
proof (induction idx arbitrary: ests score)
  case Nil
  then show ?case by simp
next
  case (Cons i idx)
  define g where "g = map2 (-) score target"
  define h where "h = map (\<lambda>_. 1::real) score"
  have g: "loss_g mse target score = Inr g"
    using Cons.prems assms(3) by (simp add: mse_def broadcast2_def g_def)
  have h: "loss_h mse target score = Inr h" by (simp add: mse_def h_def)
  have "\<exists>est. Tree_fit (new_Tree self) train g h = Inr est"
    using Cons.prems assms(3,4,5)
    by (intro Tree_fit_returns) (auto simp: g_def h_def new_Tree_def)
  then obtain est where est: "Tree_fit (new_Tree self) train g h = Inr est" ..
  from Tree_fit_predict_returns[OF est assms(2)] obtain p where
    p: "Tree_predict est train = Inr p" by auto
  have "length (map2 (\<lambda>s x. s + learning_rate self * x) score p) = length (rows train)"
    using Cons.prems Tree_predict_length[OF p] by simp
  from Cons.IH[OF this, of "ests @ [est]"] assms(1) g h est p show ?case by simp
qed

lemma fit_mse_returns:
  assumes "loss self = LossName ''mse'' \<or> loss self = LossObject mse"
    and "wf_matrix train" and "target \<noteq> []" and "length target = length (rows train)"
    and "0 < GBDT.reg_lambda self" and "0 \<le> GBDT.gamma self"
  shows "\<exists>fitted. fit self train target = Inr fitted"
proof -
  define self' where "self' = self\<lparr>loss := LossObject mse\<rparr>"
  have s: "(case loss self of
       LossName name \<Rightarrow> if name = ''mse'' then self\<lparr>loss := LossObject mse\<rparr> else self
     | LossObject obj \<Rightarrow> self) = self'"
    using assms(1) by (auto simp: self'_def)
  have "\<exists>r. fit_loop self' train target [0..<nat (n_estimators self')]
              ([], replicate (length (rows train)) (sum_list target / real (length target))) = Inr r"
    using assms by (intro fit_loop_mse_returns) (simp_all add: self'_def)
  then show ?thesis
    unfolding fit_def s Let_def using mean_nonempty[OF assms(3)]
    by (auto split: sum.splits)
qed

text \<open>
  Claim C3. After a \<^verbatim>\<open>fit\<close> that returns, the start score is the mean of the targets,
  there are \<open>n_estimators\<close> trees, the tree of round \<open>i\<close> was fitted on the gradient
  and hessian of the score of the trees before it on the training samples, and
  \<^verbatim>\<open>predict\<close> on any \<open>X\<close> is the link of the loss applied to the score of all trees
  on \<open>X\<close>, which has one entry per row of \<open>X\<close>; a tree that fails on \<open>X\<close> fails the
  prediction, and none fails on a well-formed \<open>X\<close> with as many columns as the
  training matrix.
\<close>

theorem fit_predict_additive:
  assumes "fit self train target = Inr fitted"
  shows "\<exists>start trees. mean target = Inr start \<and> score_start fitted = Some start \<and>
     estimators fitted = Some trees \<and> length trees = nat (n_estimators self) \<and>
     (\<forall>i < length trees. \<exists>obj sc g h. loss fitted = LossObject obj \<and>
         ensemble_score start (learning_rate self) (take i trees) train = Inr sc \<and>
         loss_g obj target sc = Inr g \<and> loss_h obj target sc = Inr h \<and>
         Tree_fit (new_Tree self) train g h = Inr (trees ! i)) \<and>
     (\<forall>X obj. loss fitted = LossObject obj \<longrightarrow>
         predict fitted X =
           (case ensemble_score start (learning_rate self) trees X of
              Inl e \<Rightarrow> Inl e
            | Inr sc \<Rightarrow> loss_link obj sc)) \<and>
     (\<forall>X sc. ensemble_score start (learning_rate self) trees X = Inr sc \<longrightarrow>
         length sc = length (rows X)) \<and>
     (\<forall>X. wf_matrix X \<and> nfeat X = nfeat train \<longrightarrow>
         (\<exists>sc. ensemble_score start (learning_rate self) trees X = Inr sc))"
proof -
  define self' where "self' =
    (case loss self of
       LossName name \<Rightarrow> if name = ''mse'' then self\<lparr>loss := LossObject mse\<rparr> else self
     | LossObject obj \<Rightarrow> self)"
  have same: "learning_rate self' = learning_rate self" "n_estimators self' = n_estimators self"
    "new_Tree self' = new_Tree self"
    by (auto simp: self'_def new_Tree_def split: loss_arg.splits)
  from assms obtain start trees score where
    start: "mean target = Inr start"
    and run: "fit_loop self' train target [0..<nat (n_estimators self')]
                ([], replicate (length (rows train)) start) = Inr (trees, score)"
    and fitted: "fitted = self'\<lparr>estimators := Some trees, score_start := Some start\<rparr>"
    unfolding fit_def self'_def[symmetric] Let_def
    by (auto split: sum.splits)
  have inv: "ensemble_score start (learning_rate self') [] train
               = Inr (replicate (length (rows train)) start)"
    by (rule ensemble_score_Nil)
  from fit_loop_rounds[OF run inv] have
    len: "length trees = nat (n_estimators self)"
    and rounds: "\<forall>k < length trees. \<exists>obj sc g h. loss self' = LossObject obj \<and>
         ensemble_score start (learning_rate self) (take k trees) train = Inr sc \<and>
         loss_g obj target sc = Inr g \<and> loss_h obj target sc = Inr h \<and>
         Tree_fit (new_Tree self) train g h = Inr (trees ! k)"
    unfolding same by auto
  have lf: "loss fitted = loss self'" "learning_rate fitted = learning_rate self"
    "n_estimators fitted = n_estimators self" "estimators fitted = Some trees"
    "score_start fitted = Some start"
    using fitted same by simp_all
  have pred: "predict fitted X =
           (case ensemble_score start (learning_rate self) trees X of
              Inl e \<Rightarrow> Inl e
            | Inr sc \<Rightarrow> loss_link obj sc)" if "loss fitted = LossObject obj" for X obj
  proof -
    have "predict_loop fitted X [0..<length trees] (replicate (length (rows X)) start)
            = ensemble_score start (learning_rate fitted) trees X"
      using lf(4) by (rule predict_loop_ensemble)
    then show ?thesis
      using that lf len by (simp add: predict_def split: sum.splits)
  qed
  have ret: "\<exists>sc. ensemble_score start (learning_rate self) trees X = Inr sc"
    if X: "wf_matrix X \<and> nfeat X = nfeat train" for X
  proof (rule ensemble_score_returns, rule ballI)
    fix t assume "t \<in> set trees"
    then obtain i where i: "i < length trees" "t = trees ! i"
      by (auto simp: in_set_conv_nth)
    with rounds obtain g h where "Tree_fit (new_Tree self) train g h = Inr t" by blast
    from Tree_fit_predict_returns[OF this] X show "\<exists>p. Tree_predict t X = Inr p" by simp
  qed
  from start lf len rounds pred ret show ?thesis
    by (auto simp: ensemble_score_length)
qed

theorem fit_predict_additive_witness:
  "\<exists>fitted.
     fit (GBDT_init\<lparr>GBDT.max_depth := 1, GBDT.min_sample_split := 1, n_estimators := 2,
                    learning_rate := 1\<rparr>)
         \<lparr>nfeat = 1, rows = [[1], [2], [3], [4]]\<rparr> [1, 1, 10, 10] = Inr fitted \<and>
     predict fitted \<lparr>nfeat = 1, rows = [[1], [4]]\<rparr> = Inr [3/2, 19/2] \<and>
     mean [1, 1, 10, 10] = Inr (11/2) \<and> score_start fitted = Some (11/2) \<and>
     (\<exists>trees. estimators fitted = Some trees \<and> length trees = 2)"
proof -
  let ?self = "GBDT_init\<lparr>GBDT.max_depth := 1, GBDT.min_sample_split := 1, n_estimators := 2,
                    learning_rate := 1\<rparr>"
  let ?train = "\<lparr>nfeat = 1, rows = [[1], [2], [3], [4]]\<rparr>"
  have a: "case fit ?self ?train [1, 1, 10, 10] of
             Inl e \<Rightarrow> False
           | Inr fitted \<Rightarrow> predict fitted \<lparr>nfeat = 1, rows = [[1], [4]]\<rparr> = Inr [3/2, 19/2]"
    by code_simp
  then obtain fitted where f: "fit ?self ?train [1, 1, 10, 10] = Inr fitted"
    and p: "predict fitted \<lparr>nfeat = 1, rows = [[1], [4]]\<rparr> = Inr [3/2, 19/2]"
    by (cases "fit ?self ?train [1, 1, 10, 10]") auto
  have m: "mean [1, 1, 10, 10] = Inr (11/2)"
    by (simp add: mean_def divide_checked_def)
  from fit_predict_additive[OF f] m obtain trees where
    "score_start fitted = Some (11/2)" "estimators fitted = Some trees" "length trees = 2"
    by (auto simp: GBDT_init_def)
  with f p m show ?thesis by blast
qed

text \<open>
  Claim C2 does not hold of the code. \<^verbatim>\<open>fit\<close> replaces only the string \<open>mse\<close> by
  its loss object; the string \<open>log\<close> stays a string, which has none of the methods
  \<open>g\<close>, \<open>h\<close> and \<open>link\<close>. So with \<open>loss = ''log''\<close> a \<^verbatim>\<open>fit\<close> of at least one
  round on a non-empty target raises AttributeError, and if \<^verbatim>\<open>fit\<close> returns (no
  round at all), \<^verbatim>\<open>predict\<close> raises it.
\<close>

theorem fit_log_name_fails:
  assumes "loss self = LossName ''log''"
  shows "(0 < n_estimators self \<and> target \<noteq> [] \<longrightarrow> fit self train target = Inl AttributeError) \<and>
         (\<forall>fitted. fit self train target = Inr fitted \<longrightarrow> predict fitted test = Inl AttributeError)"
proof (intro conjI impI allI)
  assume a: "0 < n_estimators self \<and> target \<noteq> []"
  then have "[0..<nat (n_estimators self)] = 0 # [Suc 0..<nat (n_estimators self)]"
    by (simp add: upt_conv_Cons)
  with a assms show "fit self train target = Inl AttributeError"
    by (simp add: fit_def mean_nonempty fit_loop_name)
next
  fix fitted assume f: "fit self train target = Inr fitted"
  from f assms obtain start trees score where
    run: "fit_loop self train target [0..<nat (n_estimators self)]
            ([], replicate (length (rows train)) start) = Inr (trees, score)"
    and fitted: "fitted = self\<lparr>estimators := Some trees, score_start := Some start\<rparr>"
    by (auto simp: fit_def split: sum.splits)
  have "[0..<nat (n_estimators self)] = []"
  proof (cases "[0..<nat (n_estimators self)]")
    case Nil
    then show ?thesis .
  next
    case (Cons i idx)
    have False
      using run[unfolded Cons] unfolding fit_loop_name[OF assms] by simp
    then show ?thesis ..
  qed
  with fitted assms show "predict fitted test = Inl AttributeError"
    by (simp add: predict_def)
qed

theorem fit_log_name_fails_witness:
  "loss (GBDT_init\<lparr>loss := LossName ''log''\<rparr>) = LossName ''log'' \<and>
   0 < n_estimators (GBDT_init\<lparr>loss := LossName ''log''\<rparr>) \<and> [0, 1] \<noteq> ([] :: real list) \<and>
   fit (GBDT_init\<lparr>loss := LossName ''log''\<rparr>) \<lparr>nfeat = 1, rows = [[1], [2]]\<rparr> [0, 1]
     = Inl AttributeError"
  using fit_log_name_fails
          [of "GBDT_init\<lparr>loss := LossName ''log''\<rparr>" "[0, 1]" "\<lparr>nfeat = 1, rows = [[1], [2]]\<rparr>"]
  by (simp add: GBDT_init_def)

end
